theory Spec2Isabelle
  imports Main "HOL-Library.Word" "HOL-Library.Multiset"
begin

unbundle bit_operations_syntax

section \<open>Stats and its merge operation\<close>

text \<open>
  \<^verbatim>\<open>type Stats struct { files, dirs int; bytes int64 }\<close>.
  Go's \<^verbatim>\<open>int\<close> has 64 bits on the 64-bit Linux hosts the README runs the benchmark on, so all
  three counters are 64-bit two's-complement words: \<open>+\<close> wraps around and \<open>sint\<close> reads the
  value the program prints.
\<close>

record Stats =
  files :: "64 word"
  dirs :: "64 word"
  bytes :: "64 word"

text \<open>\<^verbatim>\<open>func (s *Stats) Add(other Stats)\<close>: the receiver after the call.\<close>

definition Add :: "Stats \<Rightarrow> Stats \<Rightarrow> Stats" where
  "Add s other =
     s\<lparr>files := files s + files other,
       dirs := dirs s + dirs other,
       bytes := bytes s + bytes other\<rparr>"

text \<open>The zero value of the struct: the named result \<^verbatim>\<open>stats\<close> of \<^verbatim>\<open>traverse\<close> starts as it.\<close>

definition zero_Stats :: Stats where
  "zero_Stats = \<lparr>files = 0, dirs = 0, bytes = 0\<rparr>"

text \<open>
  The aggregator's loop \<^verbatim>\<open>for s := range statsCh { stats.Add(s) }\<close> over the stats it
  receives, in the order it receives them.
\<close>

definition merge_all :: "Stats \<Rightarrow> Stats list \<Rightarrow> Stats" where
  "merge_all s xs = foldl Add s xs"

section \<open>The directory tree and \<^verbatim>\<open>filepath.Walk\<close>\<close>

text \<open>
  The file system under the root path, as \<^verbatim>\<open>os.Lstat\<close> and the directory listing show it
  to \<^verbatim>\<open>filepath.Walk\<close>. Every node carries its name (for the root: the path \<^verbatim>\<open>dir\<close> given
  to the program):
  \<^item> \<open>File name size\<close>: a regular file of \<open>size\<close> bytes;
  \<^item> \<open>Other name\<close>: an entry that is neither a regular file nor a directory (a symbolic
    link, which \<^verbatim>\<open>Lstat\<close> does not follow, a device, a socket, a pipe);
  \<^item> \<open>Dir name entries\<close>: a directory and its entries in the order the listing returns
    them (sorted by name);
  \<^item> \<open>DirErr name msg\<close>: a directory whose listing fails with the error \<open>msg\<close>
    (permission denied, I/O error);
  \<^item> \<open>StatErr name msg\<close>: an entry on which \<^verbatim>\<open>Lstat\<close> fails with the error \<open>msg\<close>.
\<close>

datatype node =
    File string nat
  | Other string
  | Dir string "node list"
  | DirErr string string
  | StatErr string string

fun node_name :: "node \<Rightarrow> string" where
  "node_name (File n _) = n"
| "node_name (Other n) = n"
| "node_name (Dir n _) = n"
| "node_name (DirErr n _) = n"
| "node_name (StatErr n _) = n"

text \<open>What the callback can ask of its \<^verbatim>\<open>os.FileInfo\<close>: \<^verbatim>\<open>Mode().IsRegular()\<close> and \<^verbatim>\<open>IsDir()\<close>.\<close>

datatype kind = Regular | Directory | Irregular

text \<open>
  The \<^verbatim>\<open>error\<close> values that occur: the two sentinels of \<^verbatim>\<open>path/filepath\<close> and the errors
  of the operating system, by their message.
\<close>

datatype error = SkipDir | SkipAll | OSError string

fun error_text :: "error \<Rightarrow> string" where
  "error_text SkipDir = ''skip this directory''"
| "error_text SkipAll = ''skip everything and stop the walk''"
| "error_text (OSError m) = m"

fun IsDir :: "node \<Rightarrow> bool" where
  "IsDir (Dir _ _) = True"
| "IsDir (DirErr _ _) = True"
| "IsDir _ = False"

text \<open>
  \<^verbatim>\<open>filepath.Clean\<close> on Unix. The path is cut at every slash; empty elements and \<^verbatim>\<open>.\<close> are
  dropped; \<^verbatim>\<open>..\<close> removes the element before it, is dropped at the start of a rooted path
  and is kept at the start of a relative one; the elements left are put together with
  single slashes, after the slash of a rooted path; an empty result is \<^verbatim>\<open>.\<close>.
\<close>

fun elements :: "string \<Rightarrow> string list" where
  "elements [] = [[]]"
| "elements (c # cs) =
     (if c = CHR ''/'' then [] # elements cs
      else (case elements cs of [] \<Rightarrow> [[c]] | x # xs \<Rightarrow> (c # x) # xs))"

fun clean_elements :: "bool \<Rightarrow> string list \<Rightarrow> string list \<Rightarrow> string list" where
  "clean_elements rooted kept [] = rev kept"
| "clean_elements rooted kept (x # xs) =
     (if x = [] \<or> x = ''.'' then clean_elements rooted kept xs
      else if x = ''..'' then
        (case kept of
           [] \<Rightarrow> if rooted then clean_elements rooted kept xs
                 else clean_elements rooted (x # kept) xs
         | y # ys \<Rightarrow> if y = ''..'' then clean_elements rooted (x # kept) xs
                     else clean_elements rooted ys xs)
      else clean_elements rooted (x # kept) xs)"

fun with_slashes :: "string list \<Rightarrow> string" where
  "with_slashes [] = []"
| "with_slashes [x] = x"
| "with_slashes (x # y # xs) = x @ ''/'' @ with_slashes (y # xs)"

definition Clean :: "string \<Rightarrow> string" where
  "Clean path =
     (case path of
        [] \<Rightarrow> ''.''
      | c # cs \<Rightarrow>
          (let rooted = (c = CHR ''/'');
               body = with_slashes (clean_elements rooted [] (elements path));
               out = (if rooted then ''/'' @ body else body)
           in if out = [] then ''.'' else out))"

text \<open>
  \<^verbatim>\<open>filepath.Join\<close> of a directory's path and an entry's name: empty elements are ignored,
  the others are joined by a slash and the result is cleaned; two empty elements give the
  empty string.
\<close>

definition Join :: "string \<Rightarrow> string \<Rightarrow> string" where
  "Join path name =
     (if path = [] \<and> name = [] then []
      else if path = [] then Clean name
      else if name = [] then Clean path
      else Clean (path @ ''/'' @ name))"

type_synonym 'st WalkFunc = "string \<Rightarrow> kind option \<Rightarrow> error option \<Rightarrow> 'st \<Rightarrow> error option \<times> 'st"

text \<open>
  \<^verbatim>\<open>filepath.Walk\<close> of the Go standard library as it is documented today (the callback
  is called once for every entry; for a directory that cannot be listed, once with that
  error), with the callback's effect on the variables it captures made explicit as a
  state \<open>'st\<close>. \<open>walk'\<close> is the library's \<^verbatim>\<open>walk\<close> together
  with the \<^verbatim>\<open>Lstat\<close> its two callers do first: on a \<open>StatErr\<close> node the callback gets the
  error and no \<^verbatim>\<open>FileInfo\<close>. \<open>walk_names\<close> is the loop over a directory's names:
  by \<open>goes_on\<close> it goes on to the next name after \<^verbatim>\<open>SkipDir\<close> from the callback on a failed
  \<^verbatim>\<open>Lstat\<close> (\<^verbatim>\<open>err != nil && err != SkipDir\<close> returns) and after \<^verbatim>\<open>SkipDir\<close> from a
  directory (\<^verbatim>\<open>!fileInfo.IsDir() || err != SkipDir\<close> returns); any other error ends the walk.
\<close>

fun goes_on :: "node \<Rightarrow> error \<Rightarrow> bool" where
  "goes_on (StatErr _ _) err = (\<not> (err \<noteq> SkipDir))"
| "goes_on n err = (\<not> (\<not> IsDir n \<or> err \<noteq> SkipDir))"

fun walk' :: "'st WalkFunc \<Rightarrow> string \<Rightarrow> node \<Rightarrow> 'st \<Rightarrow> error option \<times> 'st"
  and walk_names :: "'st WalkFunc \<Rightarrow> string \<Rightarrow> node list \<Rightarrow> 'st \<Rightarrow> error option \<times> 'st"
where
  "walk' walkFn path (StatErr _ m) st = walkFn path None (Some (OSError m)) st"
| "walk' walkFn path (File _ _) st = walkFn path (Some Regular) None st"
| "walk' walkFn path (Other _) st = walkFn path (Some Irregular) None st"
| "walk' walkFn path (DirErr _ m) st = walkFn path (Some Directory) (Some (OSError m)) st"
| "walk' walkFn path (Dir _ names) st =
     (case walkFn path (Some Directory) None st of
        (Some err1, st1) \<Rightarrow> (Some err1, st1)
      | (None, st1) \<Rightarrow> walk_names walkFn path names st1)"
| "walk_names walkFn path [] st = (None, st)"
| "walk_names walkFn path (n # names) st =
     (case walk' walkFn (Join path (node_name n)) n st of
        (None, st1) \<Rightarrow> walk_names walkFn path names st1
      | (Some err, st1) \<Rightarrow>
          if goes_on n err then walk_names walkFn path names st1 else (Some err, st1))"

definition Walk :: "node \<Rightarrow> 'st WalkFunc \<Rightarrow> 'st \<Rightarrow> error option \<times> 'st" where
  "Walk root fn st =
     (case walk' fn (node_name root) root st of
        (Some err, st1) \<Rightarrow> if err = SkipDir \<or> err = SkipAll then (None, st1) else (Some err, st1)
      | (None, st1) \<Rightarrow> (None, st1))"

section \<open>The traversal producer: \<^verbatim>\<open>walk\<close>\<close>

text \<open>
  What the producer goroutine does that another goroutine or the operator can see, in
  program order: sends on the task channel, lines on the error stream, the send of a stat
  and the close of the task channel.
\<close>

datatype act = SendTask string | LogLine string | SendStat Stats | CloseTasks

text \<open>
  The variables the callback captures: the counter \<^verbatim>\<open>dirs\<close>, and (through \<^verbatim>\<open>ch\<close>) the tasks
  it has sent so far, in order.
\<close>

record walk_state =
  w_dirs :: "64 word"
  w_sent :: "act list"

text \<open>The function literal passed to \<^verbatim>\<open>filepath.Walk\<close> (lines 79 to 93).\<close>

definition walkFn :: "walk_state WalkFunc" where
  "walkFn item fi err st =
     (case err of
        Some e \<Rightarrow> (Some e, st)
      | None \<Rightarrow>
          (let st1 = (if fi = Some Regular then st\<lparr>w_sent := w_sent st @ [SendTask item]\<rparr> else st);
               st2 = (if fi = Some Directory then st1\<lparr>w_dirs := w_dirs st1 + 1\<rparr> else st1)
           in (None, st2)))"

text \<open>
  \<^verbatim>\<open>func walk(dir, ch, stats)\<close>: the walk, the line logged when it returns an error, the
  one stat with the directory count, and last the deferred \<^verbatim>\<open>close(ch)\<close>.
\<close>

definition walk :: "node \<Rightarrow> act list" where
  "walk root =
     (case Walk root walkFn \<lparr>w_dirs = 0, w_sent = []\<rparr> of
        (err, st) \<Rightarrow>
          w_sent st
          @ (case err of
               None \<Rightarrow> []
             | Some e \<Rightarrow> [LogLine (''error walking '' @ node_name root @ '': '' @ error_text e @ ''\<newline>'')])
          @ [SendStat \<lparr>files = 0, dirs = w_dirs st, bytes = 0\<rparr>, CloseTasks])"

section \<open>The reader worker: \<^verbatim>\<open>readFile\<close>\<close>

text \<open>
  What the operating system answers for one path: the error of \<^verbatim>\<open>os.Open\<close> if any, the
  pair \<^verbatim>\<open>(n, err)\<close> that \<^verbatim>\<open>io.Copy(ioutil.Discard, f)\<close> returns, and the error of
  \<^verbatim>\<open>f.Close()\<close> if any.
\<close>

record file_io =
  open_err :: "string option"
  copy_n :: "64 word"
  copy_err :: "string option"
  close_err :: "string option"

type_synonym env = "string \<Rightarrow> file_io"

text \<open>
  One round of the loop \<^verbatim>\<open>for filename := range ch\<close> (lines 50 to 72): the lines it writes
  to the error stream, and the stat it sends, if it sends one. The progress line of lines
  45 to 48 depends on the wall clock only and is left out.
\<close>

definition readFile_body :: "env \<Rightarrow> string \<Rightarrow> string list \<times> Stats option" where
  "readFile_body io filename =
     (case open_err (io filename) of
        Some err \<Rightarrow> ([''unable to read '' @ filename @ '': '' @ err @ ''\<newline>''], None)
      | None \<Rightarrow>
          (case copy_err (io filename) of
             Some err \<Rightarrow> ([''error reading '' @ filename @ '': '' @ err @ ''\<newline>''], None)
           | None \<Rightarrow>
               (case close_err (io filename) of
                  Some err \<Rightarrow> ([''error closing '' @ filename @ '': '' @ err @ ''\<newline>''], None)
                | None \<Rightarrow> ([], Some \<lparr>files = 1, dirs = 0, bytes = copy_n (io filename)\<rparr>))))"

section \<open>The goroutines of \<^verbatim>\<open>traverse\<close>\<close>

text \<open>
  A reader worker is at the head of its loop, waiting to receive from the task channel
  (\<open>WRecv\<close>), or at the send of a stat (\<open>WSend\<close>), or it has returned and its deferred
  \<^verbatim>\<open>wg.Done()\<close> has run (\<open>WDone\<close>).
\<close>

datatype wstate = WRecv | WSend Stats | WDone

text \<open>\<^verbatim>\<open>traverse\<close> itself, after it has started the goroutines: lines 122, 123, 125 and 127.\<close>

datatype mstate = MWaitWorkers | MCloseStats | MWaitAgg | MReturned

text \<open>
  A configuration of the running \<^verbatim>\<open>traverse\<close>: what is left of the producer's program; the
  reader workers; the buffer of the task channel \<^verbatim>\<open>ch\<close>, first element first, and whether
  it is closed; the same for \<^verbatim>\<open>statsCh\<close>; the counter of \<^verbatim>\<open>wg\<close>; the named result
  \<^verbatim>\<open>stats\<close>; whether the aggregator has returned; the counter of \<^verbatim>\<open>statsWg\<close>; where
  \<^verbatim>\<open>traverse\<close> itself is; and the lines written to the error stream.
\<close>

record conf =
  walk_rest :: "act list"
  ws :: "wstate list"
  ch :: "string list"
  ch_closed :: bool
  statsCh :: "Stats list"
  stats_closed :: bool
  wg :: int
  stats :: Stats
  agg_done :: bool
  statsWg :: int
  main_pc :: mstate
  stderr :: "string list"

text \<open>Both channels are made with room for 100 elements.\<close>

definition chan_cap :: nat where
  "chan_cap = 100"

text \<open>
  The result of letting one goroutine take its next step: it cannot (it waits on a
  channel or a wait group, or it has returned), or the step panics and the process dies,
  or the step leads to the next configuration.
\<close>

datatype outcome = Blocked | Panic string | Next conf

datatype actor = Producer | Worker nat | Aggregator | Main

text \<open>
  The producer does the next act of \<^verbatim>\<open>walk\<close>. A send waits while the channel's buffer
  is full, and panics on a closed channel. A panic ends the process; the deferred
  \<^verbatim>\<open>close(ch)\<close> that runs first, while the panicking goroutine unwinds, is in \<open>deferred\<close>
  below.
\<close>

definition step_producer :: "conf \<Rightarrow> outcome" where
  "step_producer c =
     (case walk_rest c of
        [] \<Rightarrow> Blocked
      | SendTask f # rest \<Rightarrow>
          if ch_closed c then Panic ''send on closed channel''
          else if length (ch c) < chan_cap then Next (c\<lparr>walk_rest := rest, ch := ch c @ [f]\<rparr>)
          else Blocked
      | LogLine l # rest \<Rightarrow> Next (c\<lparr>walk_rest := rest, stderr := stderr c @ [l]\<rparr>)
      | SendStat s # rest \<Rightarrow>
          if stats_closed c then Panic ''send on closed channel''
          else if length (statsCh c) < chan_cap
          then Next (c\<lparr>walk_rest := rest, statsCh := statsCh c @ [s]\<rparr>)
          else Blocked
      | CloseTasks # rest \<Rightarrow>
          if ch_closed c then Panic ''close of closed channel''
          else Next (c\<lparr>walk_rest := rest, ch_closed := True\<rparr>))"

text \<open>
  Worker \<open>i\<close>: at the head of the loop it takes the first task of the channel and handles
  it up to the send of its stat, or leaves the loop when the channel is closed and
  empty; at a send it sends.
\<close>

definition step_worker :: "env \<Rightarrow> nat \<Rightarrow> conf \<Rightarrow> outcome" where
  "step_worker io i c =
     (if length (ws c) \<le> i then Blocked
      else case ws c ! i of
        WRecv \<Rightarrow>
          (case ch c of
             [] \<Rightarrow>
               if ch_closed c
               then (if wg c - 1 < 0 then Panic ''sync: negative WaitGroup counter''
                     else Next (c\<lparr>ws := (ws c)[i := WDone], wg := wg c - 1\<rparr>))
               else Blocked
           | filename # rest \<Rightarrow>
               (case readFile_body io filename of
                  (lines, None) \<Rightarrow> Next (c\<lparr>ch := rest, stderr := stderr c @ lines\<rparr>)
                | (lines, Some s) \<Rightarrow>
                    Next (c\<lparr>ws := (ws c)[i := WSend s], ch := rest, stderr := stderr c @ lines\<rparr>)))
      | WSend s \<Rightarrow>
          if stats_closed c then Panic ''send on closed channel''
          else if length (statsCh c) < chan_cap
          then Next (c\<lparr>ws := (ws c)[i := WRecv], statsCh := statsCh c @ [s]\<rparr>)
          else Blocked
      | WDone \<Rightarrow> Blocked)"

text \<open>The aggregator (lines 115 to 120) adds the first stat of the channel to \<^verbatim>\<open>stats\<close>.\<close>

definition step_aggregator :: "conf \<Rightarrow> outcome" where
  "step_aggregator c =
     (if agg_done c then Blocked
      else case statsCh c of
        s # rest \<Rightarrow> Next (c\<lparr>statsCh := rest, stats := Add (stats c) s\<rparr>)
      | [] \<Rightarrow>
          if stats_closed c
          then (if statsWg c - 1 < 0 then Panic ''sync: negative WaitGroup counter''
                else Next (c\<lparr>agg_done := True, statsWg := statsWg c - 1\<rparr>))
          else Blocked)"

definition step_main :: "conf \<Rightarrow> outcome" where
  "step_main c =
     (case main_pc c of
        MWaitWorkers \<Rightarrow> if wg c = 0 then Next (c\<lparr>main_pc := MCloseStats\<rparr>) else Blocked
      | MCloseStats \<Rightarrow>
          if stats_closed c then Panic ''close of closed channel''
          else Next (c\<lparr>stats_closed := True, main_pc := MWaitAgg\<rparr>)
      | MWaitAgg \<Rightarrow> if statsWg c = 0 then Next (c\<lparr>main_pc := MReturned\<rparr>) else Blocked
      | MReturned \<Rightarrow> Blocked)"

fun step :: "env \<Rightarrow> actor \<Rightarrow> conf \<Rightarrow> outcome" where
  "step io Producer c = step_producer c"
| "step io (Worker i) c = step_worker io i c"
| "step io Aggregator c = step_aggregator c"
| "step io Main c = step_main c"

text \<open>
  A schedule names the goroutine that moves at each step. Running a schedule stops at
  the first step that cannot be taken or that panics.
\<close>

fun exec :: "env \<Rightarrow> actor list \<Rightarrow> conf \<Rightarrow> outcome" where
  "exec io [] c = Next c"
| "exec io (a # sched) c =
     (case step io a c of
        Next c' \<Rightarrow> exec io sched c'
      | Blocked \<Rightarrow> Blocked
      | Panic m \<Rightarrow> Panic m)"

text \<open>
  When a step panics, the deferred calls of the panicking goroutine run before the
  process dies: \<^verbatim>\<open>close(ch)\<close> of line 77 for the producer, \<^verbatim>\<open>wg.Done()\<close> of line 42 for a
  reader, \<^verbatim>\<open>statsWg.Done()\<close> of line 116 for the aggregator. \<open>dies_in\<close> is the configuration
  in which a schedule ends by a panic, after these calls; it is \<open>None\<close> for a schedule
  that does not panic. Where the deferred call is itself the step that panics, this is
  its effect: the task channel stays closed, and \<^verbatim>\<open>Done\<close> has decremented the counter
  before it panics on the negative value.
\<close>

fun deferred :: "actor \<Rightarrow> conf \<Rightarrow> conf" where
  "deferred Producer c = c\<lparr>ch_closed := True\<rparr>"
| "deferred (Worker i) c = c\<lparr>wg := wg c - 1\<rparr>"
| "deferred Aggregator c = c\<lparr>statsWg := statsWg c - 1\<rparr>"
| "deferred Main c = c"

fun dies_in :: "env \<Rightarrow> actor list \<Rightarrow> conf \<Rightarrow> conf option" where
  "dies_in io [] c = None"
| "dies_in io (a # sched) c =
     (case step io a c of
        Next c' \<Rightarrow> dies_in io sched c'
      | Blocked \<Rightarrow> None
      | Panic m \<Rightarrow> Some (deferred a c))"

text \<open>
  \<^verbatim>\<open>traverse(workers, dir)\<close> when line 122 is reached: the loop of lines 106 to 109 has
  started \<^verbatim>\<open>workers\<close> readers (none when \<^verbatim>\<open>workers\<close> is not positive) and added one to
  \<^verbatim>\<open>wg\<close> for each, line 111 has started the producer and lines 113 to 120 the aggregator.
  A goroutine that runs before line 122 is reached takes its steps first in the schedule.
\<close>

definition traverse :: "int \<Rightarrow> node \<Rightarrow> conf" where
  "traverse workers root =
     \<lparr>walk_rest = walk root,
      ws = replicate (nat workers) WRecv,
      ch = [],
      ch_closed = False,
      statsCh = [],
      stats_closed = False,
      wg = int (nat workers),
      stats = zero_Stats,
      agg_done = False,
      statsWg = 1,
      main_pc = MWaitWorkers,
      stderr = []\<rparr>"

text \<open>The goroutines that can take a step.\<close>

definition enabled :: "env \<Rightarrow> conf \<Rightarrow> actor list" where
  "enabled io c =
     filter (\<lambda>a. case step io a c of Next _ \<Rightarrow> True | _ \<Rightarrow> False)
       (Producer # Aggregator # Main # map Worker [0..<length (ws c)])"

section \<open>The output file and \<^verbatim>\<open>main\<close>\<close>

text \<open>Decimal text of an integer, as \<^verbatim>\<open>%v\<close> prints it.\<close>

fun show_nat :: "nat \<Rightarrow> string" where
  "show_nat n =
     (if n < 10 then [char_of (48 + n)] else show_nat (n div 10) @ [char_of (48 + n mod 10)])"

definition show_int :: "int \<Rightarrow> string" where
  "show_int i = (if i < 0 then ''-'' @ show_nat (nat (- i)) else show_nat (nat i))"

definition tab :: char where
  "tab = CHR 0x09"

text \<open>
  The output file as the operating system holds it: its content when it exists, and
  whether the process may read it, write it, or create it.
\<close>

record out_file =
  content :: "string option"
  may_read :: bool
  may_write :: bool
  may_create :: bool

text \<open>The flags of \<^verbatim>\<open>open(2)\<close> on Linux, where the README runs the program.\<close>

definition O_RDONLY :: int where "O_RDONLY = 0"
definition O_WRONLY :: int where "O_WRONLY = 1"
definition O_RDWR :: int where "O_RDWR = 2"
definition O_ACCMODE :: int where "O_ACCMODE = 3"
definition O_CREATE :: int where "O_CREATE = 0x40"
definition O_TRUNC :: int where "O_TRUNC = 0x200"
definition O_APPEND :: int where "O_APPEND = 0x400"

datatype oserr = ENOENT | EACCES | EBADF | EINVAL

fun oserr_text :: "oserr \<Rightarrow> string" where
  "oserr_text ENOENT = ''no such file or directory''"
| "oserr_text EACCES = ''permission denied''"
| "oserr_text EBADF = ''bad file descriptor''"
| "oserr_text EINVAL = ''invalid argument''"

text \<open>An open \<^verbatim>\<open>*os.File\<close>: the access mode it was opened with, and whether writes append.\<close>

record os_file =
  f_access :: int
  f_append :: bool

text \<open>
  \<^verbatim>\<open>os.OpenFile(outputFile, flag, 0644)\<close>. The flag is passed to \<^verbatim>\<open>open(2)\<close> as it is: the
  access mode is its two low bits, so a flag without \<^verbatim>\<open>O_WRONLY\<close> or \<^verbatim>\<open>O_RDWR\<close> opens the
  file for reading only. A file that does not exist is created only with \<^verbatim>\<open>O_CREATE\<close>.
\<close>

definition OpenFile :: "out_file \<Rightarrow> int \<Rightarrow> (oserr + os_file) \<times> out_file" where
  "OpenFile fs flag =
     (let access = flag AND O_ACCMODE;
          f = \<lparr>f_access = access, f_append = (flag AND O_APPEND \<noteq> 0)\<rparr>
      in case content fs of
        None \<Rightarrow>
          if flag AND O_CREATE = 0 then (Inl ENOENT, fs)
          else if may_create fs then (Inr f, fs\<lparr>content := Some []\<rparr>)
          else (Inl EACCES, fs)
      | Some data \<Rightarrow>
          if (access \<noteq> O_WRONLY \<and> \<not> may_read fs) \<or> (access \<noteq> O_RDONLY \<and> \<not> may_write fs)
          then (Inl EACCES, fs)
          else if flag AND O_TRUNC \<noteq> 0 \<and> access \<noteq> O_RDONLY
          then (Inr f, fs\<lparr>content := Some []\<rparr>)
          else (Inr f, fs))"

text \<open>
  \<^verbatim>\<open>f.Write(data)\<close>, once on a file just opened. On a nil file it returns \<^verbatim>\<open>ErrInvalid\<close>;
  \<^verbatim>\<open>write(2)\<close> on a descriptor that is open for reading only fails with \<^verbatim>\<open>EBADF\<close>.
\<close>

definition Write :: "os_file option \<Rightarrow> string \<Rightarrow> out_file \<Rightarrow> oserr option \<times> out_file" where
  "Write fo data fs =
     (case fo of
        None \<Rightarrow> (Some EINVAL, fs)
      | Some f \<Rightarrow>
          if f_access f = O_RDONLY then (Some EBADF, fs)
          else
            (let old = (case content fs of None \<Rightarrow> [] | Some d \<Rightarrow> d)
             in (None,
                 fs\<lparr>content :=
                      Some (if f_append f then old @ data else data @ drop (length data) old)\<rparr>)))"

definition Close :: "os_file option \<Rightarrow> oserr option" where
  "Close fo = (case fo of None \<Rightarrow> Some EINVAL | Some f \<Rightarrow> None)"

text \<open>\<^verbatim>\<open>ioutil.WriteFile\<close>: open with \<^verbatim>\<open>O_WRONLY|O_CREATE|O_TRUNC\<close>, write, close.\<close>

definition WriteFile :: "out_file \<Rightarrow> string \<Rightarrow> oserr option \<times> out_file" where
  "WriteFile fs data =
     (case OpenFile fs (O_WRONLY OR O_CREATE OR O_TRUNC) of
        (Inl e, fs1) \<Rightarrow> (Some e, fs1)
      | (Inr f, fs1) \<Rightarrow> Write (Some f) data fs1)"

definition header :: string where
  "header =
     ''workers'' @ [tab] @ ''files'' @ [tab] @ ''dirs'' @ [tab] @ ''bytes'' @ [tab]
     @ ''time (seconds)'' @ [tab] @ ''bandwidth (per second)\<newline>''"

text \<open>
  The texts that depend on the clock and on floating-point arithmetic, which are not
  modelled: \<^verbatim>\<open>sec\<close> and \<^verbatim>\<open>uint64(bps)\<close> as \<^verbatim>\<open>%v\<close> prints them, and \<^verbatim>\<open>formatBytes\<close> of the
  bytes and of \<^verbatim>\<open>bps\<close>.
\<close>

record timing =
  sec_text :: string
  bps_text :: string
  bytes_text :: string
  rate_text :: string

text \<open>The line of line 180.\<close>

definition data_line :: "int \<Rightarrow> Stats \<Rightarrow> timing \<Rightarrow> string" where
  "data_line workers s tm =
     show_int workers @ [tab] @ show_int (sint (files s)) @ [tab] @ show_int (sint (dirs s))
     @ [tab] @ show_int (sint (bytes s)) @ [tab] @ sec_text tm @ [tab] @ bps_text tm
     @ ''\<newline>''"

text \<open>
  Lines 156 to 170: the open file (or nil), the output file and the lines on the error
  stream; or the exit status when the output file cannot be created.
\<close>

definition open_output ::
  "string \<Rightarrow> out_file \<Rightarrow> (int \<times> out_file \<times> string list) + (os_file option \<times> out_file \<times> string list)"
where
  "open_output outputFile fs =
     (case OpenFile fs O_APPEND of
        (Inr f, fs0) \<Rightarrow> Inr (Some f, fs0, [])
      | (Inl err, fs0) \<Rightarrow>
          if err = ENOENT then
            (let creating = ''creating output file '' @ outputFile @ ''\<newline>''
             in case WriteFile fs0 header of
               (Some e, fs1) \<Rightarrow>
                 Inl (2, fs1,
                   [creating,
                    ''error creating output file '' @ outputFile @ '': '' @ oserr_text e @ ''\<newline>''])
             | (None, fs1) \<Rightarrow>
                 (case OpenFile fs1 O_APPEND of
                    (Inr f, fs2) \<Rightarrow> Inr (Some f, fs2, [creating])
                  | (Inl e, fs2) \<Rightarrow>
                      Inr (None, fs2,
                        [creating,
                         ''error opening output file '' @ outputFile @ '': '' @ oserr_text e
                         @ ''\<newline>''])))
          else
            Inr (None, fs0,
              [''error opening output file '' @ outputFile @ '': '' @ oserr_text err @ ''\<newline>'']))"

text \<open>Lines 177 to 186: the summary on the error stream, the data line, the close.\<close>

definition report ::
  "int \<Rightarrow> string \<Rightarrow> timing \<Rightarrow> Stats \<Rightarrow> os_file option \<Rightarrow> out_file \<Rightarrow> out_file \<times> string list"
where
  "report workers outputFile tm s f fs =
     (let summary =
            show_int (sint (files s)) @ '' files, '' @ show_int (sint (dirs s)) @ '' dirs, ''
            @ bytes_text tm @ '', '' @ sec_text tm @ ''s, '' @ rate_text tm @ ''/s\<newline>''
      in case Write f (data_line workers s tm) fs of
        (werr, fs1) \<Rightarrow>
          (fs1,
           summary #
           (case Close f of
              None \<Rightarrow> []
            | Some e \<Rightarrow>
                [''error closing file '' @ outputFile @ '': '' @ oserr_text e @ ''\<newline>''])))"

text \<open>
  How the process ends: with an exit status, the output file and the error stream; or by
  a panic; or not yet, when the schedule stops before \<^verbatim>\<open>traverse\<close> has returned.
\<close>

datatype proc = Exit int out_file "string list" | Crashed string | Unfinished

text \<open>
  \<^verbatim>\<open>main\<close>, given the flags \<^verbatim>\<open>workers\<close> and \<^verbatim>\<open>outputFile\<close>, the positional arguments, the
  tree found at a path (its root carries that path as its name), and the schedule of the
  goroutines of \<^verbatim>\<open>traverse\<close>. A panic in a goroutine crashes the process.
\<close>

definition main ::
  "int \<Rightarrow> string \<Rightarrow> string list \<Rightarrow> (string \<Rightarrow> node) \<Rightarrow> env \<Rightarrow> timing \<Rightarrow> out_file \<Rightarrow> actor list \<Rightarrow> proc"
where
  "main workers outputFile args tree io tm fs sched =
     (if length args \<noteq> 1 then Exit 1 fs [''usage: parallel-read-benchmark DIR\<newline>'']
      else
        (let dir = hd args;
             hello = ''traversing '' @ dir @ '' with '' @ show_int workers @ '' workers\<newline>''
         in case open_output outputFile fs of
           Inl (status, fs1, lines) \<Rightarrow> Exit status fs1 (hello # lines)
         | Inr (f, fs1, lines) \<Rightarrow>
             (case exec io sched (traverse workers (tree dir)) of
                Panic m \<Rightarrow> Crashed m
              | Blocked \<Rightarrow> Unfinished
              | Next c \<Rightarrow>
                  if main_pc c \<noteq> MReturned then Unfinished
                  else
                    (case report workers outputFile tm (stats c) f fs1 of
                       (fs2, lines2) \<Rightarrow> Exit 0 fs2 (hello # lines @ stderr c @ lines2)))))"

section \<open>What a walk visits\<close>

text \<open>
  The calls of the callback that \<^verbatim>\<open>filepath.Walk\<close> makes when no call returns an error:
  path, \<^verbatim>\<open>FileInfo\<close> and error, every directory before its entries.
\<close>

type_synonym visit = "string \<times> kind option \<times> error option"

fun visits :: "string \<Rightarrow> node \<Rightarrow> visit list"
  and visits_names :: "string \<Rightarrow> node list \<Rightarrow> visit list"
where
  "visits path (StatErr _ m) = [(path, None, Some (OSError m))]"
| "visits path (File _ _) = [(path, Some Regular, None)]"
| "visits path (Other _) = [(path, Some Irregular, None)]"
| "visits path (DirErr _ m) = [(path, Some Directory, Some (OSError m))]"
| "visits path (Dir _ names) = (path, Some Directory, None) # visits_names path names"
| "visits_names path [] = []"
| "visits_names path (n # names) = visits (Join path (node_name n)) n @ visits_names path names"

fun visit_ok :: "visit \<Rightarrow> bool" where
  "visit_ok (path, fi, err) = (err = None)"

text \<open>The visits before the first one that reports an error, and that error.\<close>

definition visited :: "node \<Rightarrow> visit list" where
  "visited root = takeWhile visit_ok (visits (node_name root) root)"

definition first_error :: "node \<Rightarrow> error option" where
  "first_error root =
     (case dropWhile visit_ok (visits (node_name root) root) of
        [] \<Rightarrow> None
      | (path, fi, err) # _ \<Rightarrow> err)"

definition regular_paths :: "visit list \<Rightarrow> string list" where
  "regular_paths vs = map fst (filter (\<lambda>(path, fi, err). fi = Some Regular) vs)"

definition directories :: "visit list \<Rightarrow> nat" where
  "directories vs = length (filter (\<lambda>(path, fi, err). fi = Some Directory) vs)"

text \<open>The sum of a list of stats, field by field.\<close>

definition stat_sum :: "Stats list \<Rightarrow> Stats" where
  "stat_sum xs = foldr Add xs zero_Stats"

text \<open>The stat a worker sends for a task, or the zero stat when it sends none.\<close>

definition task_stat :: "env \<Rightarrow> string \<Rightarrow> Stats" where
  "task_stat io filename =
     (case snd (readFile_body io filename) of None \<Rightarrow> zero_Stats | Some s \<Rightarrow> s)"

text \<open>The callback over a list of visits, up to the first error it returns.\<close>

fun calls :: "visit list \<Rightarrow> walk_state \<Rightarrow> error option \<times> walk_state" where
  "calls [] st = (None, st)"
| "calls ((path, fi, err) # vs) st =
     (case walkFn path fi err st of
        (Some e, st1) \<Rightarrow> (Some e, st1)
      | (None, st1) \<Rightarrow> calls vs st1)"

section \<open>Counting a tree\<close>

text \<open>
  The regular files of a tree, its directories (the root too if it is one) and the bytes
  of its regular files.
\<close>

fun count_files :: "node \<Rightarrow> nat" where
  "count_files (File _ _) = 1"
| "count_files (Dir _ names) = sum_list (map count_files names)"
| "count_files _ = 0"

fun count_dirs :: "node \<Rightarrow> nat" where
  "count_dirs (Dir _ names) = 1 + sum_list (map count_dirs names)"
| "count_dirs (DirErr _ _) = 1"
| "count_dirs _ = 0"

fun total_bytes :: "node \<Rightarrow> nat" where
  "total_bytes (File _ sz) = sz"
| "total_bytes (Dir _ names) = sum_list (map total_bytes names)"
| "total_bytes _ = 0"

text \<open>No entry of the tree fails to be examined or listed.\<close>

fun walkable :: "node \<Rightarrow> bool" where
  "walkable (StatErr _ _) = False"
| "walkable (DirErr _ _) = False"
| "walkable (Dir _ names) = list_all walkable names"
| "walkable _ = True"

text \<open>The regular files of a tree with their paths and sizes, in the order of the walk.\<close>

fun file_sizes :: "string \<Rightarrow> node \<Rightarrow> (string \<times> nat) list"
  and file_sizes_names :: "string \<Rightarrow> node list \<Rightarrow> (string \<times> nat) list"
where
  "file_sizes path (File _ sz) = [(path, sz)]"
| "file_sizes path (Dir _ names) = file_sizes_names path names"
| "file_sizes path (Other _) = []"
| "file_sizes path (DirErr _ _) = []"
| "file_sizes path (StatErr _ _) = []"
| "file_sizes_names path [] = []"
| "file_sizes_names path (n # names) =
     file_sizes (Join path (node_name n)) n @ file_sizes_names path names"

text \<open>
  A file is readable when it opens, \<^verbatim>\<open>io.Copy\<close> returns its size (an \<^verbatim>\<open>int64\<close>, so below
  \<open>2 ^ 63\<close>) and no error, and it closes.
\<close>

fun reads_fully :: "env \<Rightarrow> string \<times> nat \<Rightarrow> bool" where
  "reads_fully io (path, sz) \<longleftrightarrow>
     open_err (io path) = None \<and> copy_err (io path) = None \<and> close_err (io path) = None \<and>
     sz < 2 ^ 63 \<and> copy_n (io path) = of_nat sz"

definition readable :: "env \<Rightarrow> node \<Rightarrow> bool" where
  "readable io root = list_all (reads_fully io) (file_sizes (node_name root) root)"

section \<open>Example inputs\<close>

text \<open>
  A file system without faults for a tree: every regular file of the tree opens, reads
  to its size and closes; no other path opens.
\<close>

definition healthy_io :: "node \<Rightarrow> env" where
  "healthy_io root path =
     (case map_of (file_sizes (node_name root) root) path of
        Some sz \<Rightarrow> \<lparr>open_err = None, copy_n = of_nat sz, copy_err = None, close_err = None\<rparr>
      | None \<Rightarrow>
          \<lparr>open_err = Some ''no such file or directory'', copy_n = 0, copy_err = None,
           close_err = None\<rparr>)"

text \<open>Three files of 10, 20 and 30 bytes in two directories.\<close>

definition small_tree :: node where
  "small_tree = Dir ''root'' [File ''a'' 10, Dir ''sub'' [File ''b'' 20, File ''c'' 30]]"

text \<open>A schedule for two workers on \<open>small_tree\<close> that lets \<^verbatim>\<open>traverse\<close> return.\<close>

definition small_sched :: "actor list" where
  "small_sched =
     [Producer, Producer, Worker 0, Worker 1, Producer, Worker 0, Aggregator, Worker 1,
      Worker 0, Producer, Producer, Worker 0, Worker 0, Worker 1, Main, Main,
      Aggregator, Aggregator, Aggregator, Aggregator, Main]"

text \<open>Two sparse files of \<open>2 ^ 62\<close> bytes each in one directory.\<close>

definition big_tree :: node where
  "big_tree = Dir ''d'' [File ''a'' (2 ^ 62), File ''b'' (2 ^ 62)]"

definition big_sched :: "actor list" where
  "big_sched =
     [Producer, Producer, Producer, Producer, Worker 0, Worker 0, Worker 0, Worker 0,
      Worker 0, Main, Main, Aggregator, Aggregator, Aggregator, Aggregator, Main]"

text \<open>A directory with an entry that cannot be listed between two regular files.\<close>

definition broken_tree :: node where
  "broken_tree =
     Dir ''r'' [File ''a'' 5, DirErr ''locked'' ''open r/locked: permission denied'', File ''z'' 7]"

definition broken_sched :: "actor list" where
  "broken_sched =
     [Producer, Producer, Producer, Producer, Worker 0, Worker 0, Worker 0, Main, Main,
      Aggregator, Aggregator, Aggregator, Main]"

text \<open>A root path that does not exist.\<close>

definition missing_root :: node where
  "missing_root = StatErr ''nowhere'' ''lstat nowhere: no such file or directory''"

definition missing_sched :: "actor list" where
  "missing_sched = [Producer, Producer, Producer, Worker 0, Main, Main, Aggregator, Aggregator, Main]"

text \<open>An output file that does not exist yet, and one that holds the header and a line.\<close>

definition fresh_out :: out_file where
  "fresh_out = \<lparr>content = None, may_read = True, may_write = True, may_create = True\<rparr>"

definition used_out :: out_file where
  "used_out =
     \<lparr>content = Some (header @ ''1'' @ [tab] @ ''3'' @ [tab] @ ''2'' @ [tab] @ ''60'' @ [tab]
                      @ ''0.25'' @ [tab] @ ''240\<newline>''),
      may_read = True, may_write = True, may_create = True\<rparr>"

definition some_timing :: timing where
  "some_timing = \<lparr>sec_text = ''0.5'', bps_text = ''120'', bytes_text = ''60B'', rate_text = ''120B''\<rparr>"

text \<open>A schedule for one worker on \<open>small_tree\<close> that lets \<^verbatim>\<open>traverse\<close> return.\<close>

definition single_sched :: "actor list" where
  "single_sched =
     [Producer, Producer, Producer, Producer, Producer, Worker 0, Worker 0, Worker 0,
      Worker 0, Worker 0, Worker 0, Worker 0, Main, Main, Aggregator, Aggregator,
      Aggregator, Aggregator, Aggregator, Main]"

text \<open>
  Without workers: \<^verbatim>\<open>traverse\<close> returns before the producer has moved; or the producer
  moves after the stats channel is closed.
\<close>

definition early_sched :: "actor list" where
  "early_sched = [Main, Main, Aggregator, Main]"

definition late_sched :: "actor list" where
  "late_sched = [Main, Main, Producer, Producer, Producer, Producer]"

text \<open>
  The file system of \<open>small_tree\<close> with one fault: closing \<^verbatim>\<open>root/sub/b\<close> fails after it
  has been read to its end. A schedule for one worker on it.
\<close>

definition faulty_io :: env where
  "faulty_io path =
     (healthy_io small_tree path)
       \<lparr>close_err := (if path = ''root/sub/b'' then Some ''input/output error'' else None)\<rparr>"

definition faulty_sched :: "actor list" where
  "faulty_sched =
     [Producer, Producer, Producer, Producer, Producer, Worker 0, Worker 0, Worker 0,
      Worker 0, Worker 0, Worker 0, Main, Main, Aggregator, Aggregator, Aggregator,
      Aggregator, Main]"

text \<open>Without workers on the missing root: the producer moves after the stats channel is closed.\<close>

definition missing_late_sched :: "actor list" where
  "missing_late_sched = [Main, Main, Producer, Producer]"

section \<open>Bookkeeping for the proofs\<close>

text \<open>The tasks the producer has still to send, and whether its stat is still to be sent.\<close>

fun unsent :: "act list \<Rightarrow> string list" where
  "unsent [] = []"
| "unsent (SendTask f # acts) = f # unsent acts"
| "unsent (_ # acts) = unsent acts"

fun stat_pending :: "act list \<Rightarrow> bool" where
  "stat_pending [] = False"
| "stat_pending (SendStat s # acts) = True"
| "stat_pending (_ # acts) = stat_pending acts"

text \<open>
  The shape of what is left of the producer's program: tasks and log lines, then the
  stat \<open>d\<close>, then the close.
\<close>

fun wf_rest :: "Stats \<Rightarrow> act list \<Rightarrow> bool" where
  "wf_rest d [] = True"
| "wf_rest d (CloseTasks # acts) = (acts = [])"
| "wf_rest d (SendStat s # acts) = (s = d \<and> acts = [CloseTasks])"
| "wf_rest d (SendTask f # acts) = (stat_pending acts \<and> wf_rest d acts)"
| "wf_rest d (LogLine l # acts) = (stat_pending acts \<and> wf_rest d acts)"

text \<open>The stat a worker is about to send, and the number of workers that have not returned.\<close>

fun pending :: "wstate \<Rightarrow> Stats" where
  "pending (WSend s) = s"
| "pending _ = zero_Stats"

definition active :: "wstate list \<Rightarrow> nat" where
  "active wl = length (filter (\<lambda>w. w \<noteq> WDone) wl)"

text \<open>The tasks of a walk, its stat, and the sum of that stat and the stats of the tasks.\<close>

definition tasks :: "node \<Rightarrow> string list" where
  "tasks root = regular_paths (visited root)"

definition dir_stat :: "node \<Rightarrow> Stats" where
  "dir_stat root = \<lparr>files = 0, dirs = of_nat (directories (visited root)), bytes = 0\<rparr>"

definition expected :: "env \<Rightarrow> node \<Rightarrow> Stats" where
  "expected io root = Add (stat_sum (map (task_stat io) (tasks root))) (dir_stat root)"

text \<open>A bound on the number of steps that are left.\<close>

fun worker_weight :: "wstate \<Rightarrow> nat" where
  "worker_weight WRecv = 1"
| "worker_weight (WSend s) = 3"
| "worker_weight WDone = 0"

fun main_weight :: "mstate \<Rightarrow> nat" where
  "main_weight MWaitWorkers = 3"
| "main_weight MCloseStats = 2"
| "main_weight MWaitAgg = 1"
| "main_weight MReturned = 0"

definition steps_left :: "conf \<Rightarrow> nat" where
  "steps_left c =
     4 * length (walk_rest c) + 3 * length (ch c) + sum_list (map worker_weight (ws c))
     + length (statsCh c) + (if agg_done c then 0 else 1) + main_weight (main_pc c)"

text \<open>What holds in every configuration that a schedule reaches.\<close>

definition inv_prod :: "node \<Rightarrow> conf \<Rightarrow> bool" where
  "inv_prod root c \<longleftrightarrow>
     wf_rest (dir_stat root) (walk_rest c) \<and> (ch_closed c \<longleftrightarrow> walk_rest c = [])"

definition inv_sync :: "conf \<Rightarrow> bool" where
  "inv_sync c \<longleftrightarrow>
     wg c = int (active (ws c)) \<and>
     (WDone \<in> set (ws c) \<longrightarrow> ch_closed c \<and> ch c = []) \<and>
     (stats_closed c \<longleftrightarrow> main_pc c = MWaitAgg \<or> main_pc c = MReturned) \<and>
     (main_pc c \<noteq> MWaitWorkers \<longrightarrow> wg c = 0) \<and>
     (agg_done c \<longrightarrow> stats_closed c \<and> statsCh c = []) \<and>
     statsWg c = (if agg_done c then 0 else 1) \<and>
     (main_pc c = MReturned \<longrightarrow> agg_done c)"

definition inv_acct :: "env \<Rightarrow> node \<Rightarrow> conf \<Rightarrow> bool" where
  "inv_acct io root c \<longleftrightarrow>
     (\<exists>consumed.
        tasks root = consumed @ ch c @ unsent (walk_rest c) \<and>
        Add (Add (stats c) (stat_sum (statsCh c))) (stat_sum (map pending (ws c))) =
        Add (stat_sum (map (task_stat io) consumed))
          (if stat_pending (walk_rest c) then zero_Stats else dir_stat root))"

definition inv :: "env \<Rightarrow> node \<Rightarrow> conf \<Rightarrow> bool" where
  "inv io root c \<longleftrightarrow> inv_prod root c \<and> inv_sync c \<and> inv_acct io root c"

text \<open>The acts that send a stat, and the tasks that a worker reads without error.\<close>

fun is_stat :: "act \<Rightarrow> bool" where
  "is_stat (SendStat s) = True"
| "is_stat _ = False"

definition read_ok :: "env \<Rightarrow> string \<Rightarrow> bool" where
  "read_ok io filename \<longleftrightarrow>
     open_err (io filename) = None \<and> copy_err (io filename) = None \<and>
     close_err (io filename) = None"

section \<open>Properties of the merge operation\<close>

lemma Add_commute: "Add a b = Add b a"
  by (simp add: Add_def add.commute)

lemma Add_assoc: "Add (Add a b) c = Add a (Add b c)"
  by (simp add: Add_def add.assoc)

lemma Add_left_commute: "Add a (Add b c) = Add b (Add a c)"
  by (simp add: Add_def add.left_commute)

lemma Add_zero_right: "Add a zero_Stats = a"
  by (simp add: Add_def zero_Stats_def)

lemma Add_zero_left: "Add zero_Stats a = a"
  by (simp add: Add_def zero_Stats_def)

lemmas Add_ac = Add_assoc Add_commute Add_left_commute

lemma stat_sum_Nil: "stat_sum [] = zero_Stats"
  by (simp add: stat_sum_def)

lemma stat_sum_Cons: "stat_sum (x # xs) = Add x (stat_sum xs)"
  by (simp add: stat_sum_def)

lemma stat_sum_append: "stat_sum (xs @ ys) = Add (stat_sum xs) (stat_sum ys)"
  by (induction xs) (simp_all add: stat_sum_Nil stat_sum_Cons Add_zero_left Add_assoc)

lemma merge_all_stat_sum: "merge_all s xs = Add s (stat_sum xs)"
  unfolding merge_all_def
  by (induction xs arbitrary: s) (simp_all add: stat_sum_Nil stat_sum_Cons Add_zero_right Add_assoc)

lemma files_stat_sum: "files (stat_sum xs) = sum_list (map files xs)"
  by (induction xs) (simp_all add: stat_sum_Nil stat_sum_Cons Add_def zero_Stats_def)

lemma dirs_stat_sum: "dirs (stat_sum xs) = sum_list (map dirs xs)"
  by (induction xs) (simp_all add: stat_sum_Nil stat_sum_Cons Add_def zero_Stats_def)

lemma bytes_stat_sum: "bytes (stat_sum xs) = sum_list (map bytes xs)"
  by (induction xs) (simp_all add: stat_sum_Nil stat_sum_Cons Add_def zero_Stats_def)

lemma sum_list_map_mset:
  fixes f :: "'a \<Rightarrow> 'b::comm_monoid_add"
  assumes "mset xs = mset ys"
  shows "sum_list (map f xs) = sum_list (map f ys)"
proof -
  have "sum_mset (mset (map f xs)) = sum_mset (mset (map f ys))"
    using assms by simp
  then show ?thesis by (simp only: sum_mset_sum_list)
qed

lemma stat_sum_mset:
  assumes "mset xs = mset ys"
  shows "stat_sum xs = stat_sum ys"
proof (rule Stats.equality)
  show "files (stat_sum xs) = files (stat_sum ys)"
    unfolding files_stat_sum by (rule sum_list_map_mset [OF assms])
  show "dirs (stat_sum xs) = dirs (stat_sum ys)"
    unfolding dirs_stat_sum by (rule sum_list_map_mset [OF assms])
  show "bytes (stat_sum xs) = bytes (stat_sum ys)"
    unfolding bytes_stat_sum by (rule sum_list_map_mset [OF assms])
qed simp

lemma merge_all_mset: "mset xs = mset ys \<Longrightarrow> merge_all s xs = merge_all s ys"
  using stat_sum_mset [of xs ys] by (simp add: merge_all_stat_sum)

section \<open>The producer's program\<close>

lemma walkFn_Some: "walkFn item fi (Some e) st = (Some e, st)"
  by (simp add: walkFn_def)

lemma walkFn_None:
  "walkFn item fi None st =
     (None, st\<lparr>w_sent := w_sent st @ (if fi = Some Regular then [SendTask item] else []),
               w_dirs := w_dirs st + (if fi = Some Directory then 1 else 0)\<rparr>)"
  by (simp add: walkFn_def Let_def)

lemma calls_append:
  "calls (xs @ ys) st =
     (case calls xs st of (Some e, st1) \<Rightarrow> (Some e, st1) | (None, st1) \<Rightarrow> calls ys st1)"
  by (induction xs arbitrary: st) (auto split: prod.splits option.splits)

lemma calls_not_Skip:
  "calls vs st = (Some e, st1) \<Longrightarrow>
   list_all (\<lambda>(p, fi, err). err \<noteq> Some SkipDir \<and> err \<noteq> Some SkipAll) vs \<Longrightarrow>
   e \<noteq> SkipDir \<and> e \<noteq> SkipAll"
  apply (induction vs arbitrary: st)
   apply simp
  apply (case_tac a)
  apply (case_tac c)
  apply (auto simp: walkFn_None walkFn_Some split: prod.splits option.splits)
  done

lemma visits_no_Skip:
  "list_all (\<lambda>(p, fi, err). err \<noteq> Some SkipDir \<and> err \<noteq> Some SkipAll) (visits path n)"
  "list_all (\<lambda>(p, fi, err). err \<noteq> Some SkipDir \<and> err \<noteq> Some SkipAll) (visits_names path ns)"
  by (induction path n and path ns rule: visits_visits_names.induct) simp_all

text \<open>
  With this callback, which returns the error it is given and no other, the walk is the
  callback over the visits in order, up to the first one with an error.
\<close>

lemma walk'_calls:
  "walk' walkFn path n st = calls (visits path n) st"
  "walk_names walkFn path ns st = calls (visits_names path ns) st"
proof (induction path n and path ns arbitrary: st and st rule: visits_visits_names.induct)
  case (7 path n names)
  show ?case
  proof (cases "calls (visits (Join path (node_name n)) n) st")
    case (Pair r st1)
    show ?thesis
    proof (cases r)
      case None
      then show ?thesis using Pair 7 by (simp add: calls_append)
    next
      case (Some e)
      have "e \<noteq> SkipDir"
        using calls_not_Skip [OF Pair [unfolded Some] visits_no_Skip(1)] by simp
      then have "\<not> goes_on n e" by (cases n) simp_all
      then show ?thesis using Pair Some 7 by (simp add: calls_append)
    qed
  qed
qed (simp_all add: walkFn_Some walkFn_None split: prod.splits option.splits)

lemma regular_paths_simps:
  "regular_paths [] = []"
  "regular_paths ((p, fi, err) # vs) = (if fi = Some Regular then [p] else []) @ regular_paths vs"
  "regular_paths (xs @ ys) = regular_paths xs @ regular_paths ys"
  by (simp_all add: regular_paths_def)

lemma directories_simps:
  "directories [] = 0"
  "directories ((p, fi, err) # vs) = (if fi = Some Directory then 1 else 0) + directories vs"
  "directories (xs @ ys) = directories xs + directories ys"
  by (simp_all add: directories_def)

text \<open>
  The outcome of the callback over a list of visits: the error of the first visit that has
  one, a task for every regular file and one more directory for every directory before it.
\<close>

lemma calls_spec:
  "calls vs st =
     ((case dropWhile visit_ok vs of [] \<Rightarrow> None | (path, fi, err) # _ \<Rightarrow> err),
      st\<lparr>w_sent := w_sent st @ map SendTask (regular_paths (takeWhile visit_ok vs)),
         w_dirs := w_dirs st + of_nat (directories (takeWhile visit_ok vs))\<rparr>)"
proof (induction vs arbitrary: st)
  case Nil
  show ?case by (simp add: regular_paths_simps directories_simps)
next
  case (Cons v vs)
  obtain p fi err where v: "v = (p, fi, err)" by (cases v)
  show ?case
  proof (cases err)
    case None
    show ?thesis
      unfolding v None
      by (simp add: walkFn_None Cons.IH regular_paths_simps directories_simps)
  next
    case (Some e)
    show ?thesis
      unfolding v Some
      by (simp add: walkFn_Some regular_paths_simps directories_simps)
  qed
qed

lemma Walk_walkFn:
  "Walk root walkFn st = calls (visits (node_name root) root) st"
proof (cases "calls (visits (node_name root) root) st")
  case (Pair r st1)
  show ?thesis
  proof (cases r)
    case None
    then show ?thesis using Pair by (simp add: Walk_def walk'_calls)
  next
    case (Some e)
    have "e \<noteq> SkipDir \<and> e \<noteq> SkipAll"
      using calls_not_Skip [OF Pair [unfolded Some] visits_no_Skip(1)] .
    then show ?thesis using Pair Some by (simp add: Walk_def walk'_calls)
  qed
qed

lemma walk_spec:
  "walk root =
     map SendTask (regular_paths (visited root))
     @ (case first_error root of
          None \<Rightarrow> []
        | Some e \<Rightarrow> [LogLine (''error walking '' @ node_name root @ '': '' @ error_text e @ ''\<newline>'')])
     @ [SendStat \<lparr>files = 0, dirs = of_nat (directories (visited root)), bytes = 0\<rparr>, CloseTasks]"
  by (simp add: walk_def Walk_walkFn calls_spec visited_def first_error_def)

section \<open>Steps and schedules\<close>

lemma exec_invariant:
  assumes "exec io sched c0 = Next c" and "P c0"
    and "\<And>a c c'. P c \<Longrightarrow> step io a c = Next c' \<Longrightarrow> P c'"
  shows "P c"
  using assms(1,2)
proof (induction sched arbitrary: c0)
  case Nil
  then show ?case by simp
next
  case (Cons a sched)
  then show ?case by (auto split: outcome.splits intro: assms(3))
qed

lemma step_producer_Next:
  assumes "step_producer c = Next c'"
  obtains
    (task) f rest where "walk_rest c = SendTask f # rest" "\<not> ch_closed c" "length (ch c) < chan_cap"
      "c' = c\<lparr>walk_rest := rest, ch := ch c @ [f]\<rparr>"
  | (log) l rest where "walk_rest c = LogLine l # rest" "c' = c\<lparr>walk_rest := rest, stderr := stderr c @ [l]\<rparr>"
  | (stat) s rest where "walk_rest c = SendStat s # rest" "\<not> stats_closed c" "length (statsCh c) < chan_cap"
      "c' = c\<lparr>walk_rest := rest, statsCh := statsCh c @ [s]\<rparr>"
  | (close) rest where "walk_rest c = CloseTasks # rest" "\<not> ch_closed c" "c' = c\<lparr>walk_rest := rest, ch_closed := True\<rparr>"
  using assms unfolding step_producer_def
  by (auto split: list.splits act.splits if_splits)

lemma step_worker_Next:
  assumes "step_worker io i c = Next c'"
  obtains
    (exit) "i < length (ws c)" "ws c ! i = WRecv" "ch c = []" "ch_closed c" "1 \<le> wg c"
      "c' = c\<lparr>ws := (ws c)[i := WDone], wg := wg c - 1\<rparr>"
  | (skip) filename rest lines where "i < length (ws c)" "ws c ! i = WRecv" "ch c = filename # rest"
      "readFile_body io filename = (lines, None)" "c' = c\<lparr>ch := rest, stderr := stderr c @ lines\<rparr>"
  | (read) filename rest lines s where "i < length (ws c)" "ws c ! i = WRecv" "ch c = filename # rest"
      "readFile_body io filename = (lines, Some s)"
      "c' = c\<lparr>ws := (ws c)[i := WSend s], ch := rest, stderr := stderr c @ lines\<rparr>"
  | (send) s where "i < length (ws c)" "ws c ! i = WSend s" "\<not> stats_closed c" "length (statsCh c) < chan_cap"
      "c' = c\<lparr>ws := (ws c)[i := WRecv], statsCh := statsCh c @ [s]\<rparr>"
  using assms unfolding step_worker_def
  by (auto split: list.splits wstate.splits if_splits prod.splits option.splits)

lemma step_aggregator_Next:
  assumes "step_aggregator c = Next c'"
  obtains
    (merge) s rest where "\<not> agg_done c" "statsCh c = s # rest" "c' = c\<lparr>statsCh := rest, stats := Add (stats c) s\<rparr>"
  | (exit) "\<not> agg_done c" "statsCh c = []" "stats_closed c" "1 \<le> statsWg c"
      "c' = c\<lparr>agg_done := True, statsWg := statsWg c - 1\<rparr>"
  using assms unfolding step_aggregator_def
  by (auto split: list.splits if_splits)

lemma step_main_Next:
  assumes "step_main c = Next c'"
  obtains
    (waited) "main_pc c = MWaitWorkers" "wg c = 0" "c' = c\<lparr>main_pc := MCloseStats\<rparr>"
  | (close) "main_pc c = MCloseStats" "\<not> stats_closed c" "c' = c\<lparr>stats_closed := True, main_pc := MWaitAgg\<rparr>"
  | (return) "main_pc c = MWaitAgg" "statsWg c = 0" "c' = c\<lparr>main_pc := MReturned\<rparr>"
  using assms unfolding step_main_def
  by (auto split: mstate.splits if_splits)

section \<open>Invariants\<close>

lemma wf_rest_tail:
  "wf_rest d (a # rest) \<Longrightarrow> wf_rest d rest"
  by (cases a) auto

lemma wf_rest_last:
  "wf_rest d (a # rest) \<Longrightarrow> (rest = [] \<longleftrightarrow> a = CloseTasks)"
  by (cases a) auto

lemma inv_prod_step:
  assumes "inv_prod root c" and "step io a c = Next c'"
  shows "inv_prod root c'"
proof (cases a)
  case Producer
  with assms(2) have "step_producer c = Next c'" by simp
  then show ?thesis
    using assms(1) unfolding inv_prod_def
    by (cases rule: step_producer_Next) (auto dest: wf_rest_tail wf_rest_last)
next
  case (Worker i)
  with assms(2) have "step_worker io i c = Next c'" by simp
  then show ?thesis
    using assms(1) unfolding inv_prod_def
    by (cases rule: step_worker_Next) auto
next
  case Aggregator
  with assms(2) have "step_aggregator c = Next c'" by simp
  then show ?thesis
    using assms(1) unfolding inv_prod_def
    by (cases rule: step_aggregator_Next) auto
next
  case Main
  with assms(2) have "step_main c = Next c'" by simp
  then show ?thesis
    using assms(1) unfolding inv_prod_def
    by (cases rule: step_main_Next) auto
qed

lemma sum_list_map_update:
  fixes f :: "'a \<Rightarrow> nat"
  shows "i < length xs \<Longrightarrow> sum_list (map f (xs[i := x])) + f (xs ! i) = sum_list (map f xs) + f x"
proof (induction xs arbitrary: i)
  case Nil
  then show ?case by simp
next
  case (Cons y xs)
  show ?case
  proof (cases i)
    case 0
    then show ?thesis by simp
  next
    case (Suc j)
    then show ?thesis using Cons.IH [of j] Cons.prems by simp
  qed
qed

lemma active_sum: "active wl = sum_list (map (\<lambda>w. if w = WDone then 0 else 1) wl)"
  unfolding active_def by (induction wl) simp_all

lemma active_update:
  assumes "i < length wl"
  shows "active (wl[i := w]) + (if wl ! i \<noteq> WDone then 1 else 0) =
         active wl + (if w \<noteq> WDone then 1 else 0)"
  using sum_list_map_update [OF assms, of "\<lambda>w. if w = WDone then 0 else 1" w]
  unfolding active_sum by (cases "w = WDone"; cases "wl ! i = WDone"; simp)

lemma active_zero: "active wl = 0 \<longleftrightarrow> (\<forall>w \<in> set wl. w = WDone)"
  by (auto simp: active_def filter_empty_conv)

lemma set_update_cases: "x \<in> set (wl[i := w]) \<Longrightarrow> x = w \<or> x \<in> set wl"
  using set_update_subset_insert [of wl i w] by auto

lemma inv_sync_step:
  assumes "inv_sync c" and "step io a c = Next c'"
  shows "inv_sync c'"
proof (cases a)
  case Producer
  with assms(2) have "step_producer c = Next c'" by simp
  then show ?thesis
    using assms(1) unfolding inv_sync_def
    by (cases rule: step_producer_Next) auto
next
  case (Worker i)
  with assms(2) have "step_worker io i c = Next c'" by simp
  then show ?thesis
  proof (cases rule: step_worker_Next)
    case exit
    have "active ((ws c)[i := WDone]) + 1 = active (ws c)"
      using active_update [OF exit(1), of WDone] exit(2) by simp
    then show ?thesis
      using assms(1) exit unfolding inv_sync_def
      by (auto dest: set_update_cases)
  next
    case (skip filename rest lines)
    then show ?thesis using assms(1) unfolding inv_sync_def by auto
  next
    case (read filename rest lines s)
    have "active ((ws c)[i := WSend s]) = active (ws c)"
      using active_update [OF read(1), of "WSend s"] read(2) by simp
    moreover have "WDone \<notin> set (ws c)"
      using assms(1) read(3) unfolding inv_sync_def by auto
    ultimately show ?thesis
      using assms(1) read unfolding inv_sync_def
      by (auto dest: set_update_cases)
  next
    case (send s)
    have "active ((ws c)[i := WRecv]) = active (ws c)"
      using active_update [OF send(1), of WRecv] send(2) by simp
    moreover have "WDone \<in> set ((ws c)[i := WRecv]) \<Longrightarrow> WDone \<in> set (ws c)"
      by (auto dest: set_update_cases)
    ultimately show ?thesis
      using assms(1) send unfolding inv_sync_def
      by auto
  qed
next
  case Aggregator
  with assms(2) have "step_aggregator c = Next c'" by simp
  then show ?thesis
    using assms(1) unfolding inv_sync_def
    by (cases rule: step_aggregator_Next) auto
next
  case Main
  with assms(2) have "step_main c = Next c'" by simp
  then show ?thesis
    using assms(1) unfolding inv_sync_def
    by (cases rule: step_main_Next) (auto split: if_splits)
qed

lemma pending_update:
  "i < length wl \<Longrightarrow>
   Add (pending (wl ! i)) (stat_sum (map pending (wl[i := w]))) =
   Add (pending w) (stat_sum (map pending wl))"
proof (induction wl arbitrary: i)
  case Nil
  then show ?case by simp
next
  case (Cons x wl)
  show ?case
  proof (cases i)
    case 0
    then show ?thesis by (simp add: stat_sum_Cons Add_ac)
  next
    case (Suc j)
    then have "Add (pending (wl ! j)) (stat_sum (map pending (wl[j := w]))) =
      Add (pending w) (stat_sum (map pending wl))"
      using Cons by simp
    then show ?thesis
      using Suc by (simp add: stat_sum_Cons Add_left_commute [of _ "pending x"])
  qed
qed

lemma task_stat_None: "readFile_body io f = (lines, None) \<Longrightarrow> task_stat io f = zero_Stats"
  by (simp add: task_stat_def)

lemma task_stat_Some: "readFile_body io f = (lines, Some s) \<Longrightarrow> task_stat io f = s"
  by (simp add: task_stat_def)

lemma wf_rest_stat: "wf_rest d (SendStat s # rest) \<Longrightarrow> s = d \<and> \<not> stat_pending rest"
  by auto

lemma inv_acct_producer:
  assumes "inv_acct io root c" and "inv_prod root c" and "step_producer c = Next c'"
  shows "inv_acct io root c'"
proof -
  obtain consumed where t: "tasks root = consumed @ ch c @ unsent (walk_rest c)"
    and e: "Add (Add (stats c) (stat_sum (statsCh c))) (stat_sum (map pending (ws c))) =
        Add (stat_sum (map (task_stat io) consumed))
          (if stat_pending (walk_rest c) then zero_Stats else dir_stat root)"
    using assms(1) unfolding inv_acct_def by blast
  from assms(3) show ?thesis
  proof (cases rule: step_producer_Next)
    case (task f rest)
    then show ?thesis using t e unfolding inv_acct_def by (intro exI [of _ consumed]) simp
  next
    case (log l rest)
    then show ?thesis using t e unfolding inv_acct_def by (intro exI [of _ consumed]) simp
  next
    case (stat s rest)
    have s: "s = dir_stat root" "\<not> stat_pending rest"
      using assms(2) stat(1) wf_rest_stat unfolding inv_prod_def by auto
    have "Add (Add (stats c) (stat_sum (statsCh c @ [s]))) (stat_sum (map pending (ws c))) =
      Add (Add (Add (stats c) (stat_sum (statsCh c))) (stat_sum (map pending (ws c)))) s"
      by (simp add: stat_sum_append stat_sum_Cons stat_sum_Nil Add_zero_right Add_zero_left Add_ac)
    also have "\<dots> = Add (stat_sum (map (task_stat io) consumed)) (dir_stat root)"
      using e stat(1) s by (simp add: Add_zero_right)
    finally show ?thesis
      using t stat s unfolding inv_acct_def by (intro exI [of _ consumed]) simp
  next
    case (close rest)
    then show ?thesis using t e unfolding inv_acct_def by (intro exI [of _ consumed]) simp
  qed
qed

lemma inv_acct_worker:
  assumes "inv_acct io root c" and "step_worker io i c = Next c'"
  shows "inv_acct io root c'"
proof -
  obtain consumed where t: "tasks root = consumed @ ch c @ unsent (walk_rest c)"
    and e: "Add (Add (stats c) (stat_sum (statsCh c))) (stat_sum (map pending (ws c))) =
        Add (stat_sum (map (task_stat io) consumed))
          (if stat_pending (walk_rest c) then zero_Stats else dir_stat root)"
    using assms(1) unfolding inv_acct_def by blast
  let ?R = "if stat_pending (walk_rest c) then zero_Stats else dir_stat root"
  from assms(2) show ?thesis
  proof (cases rule: step_worker_Next)
    case exit
    have "stat_sum (map pending ((ws c)[i := WDone])) = stat_sum (map pending (ws c))"
      using pending_update [OF exit(1), of WDone] exit(2) by (simp add: Add_zero_left)
    then show ?thesis using t e exit unfolding inv_acct_def by (intro exI [of _ consumed]) simp
  next
    case (skip filename rest lines)
    have "stat_sum (map (task_stat io) (consumed @ [filename])) = stat_sum (map (task_stat io) consumed)"
      using task_stat_None [OF skip(4)]
      by (simp add: stat_sum_append stat_sum_Cons stat_sum_Nil Add_zero_right)
    then show ?thesis
      using t e skip unfolding inv_acct_def by (intro exI [of _ "consumed @ [filename]"]) simp
  next
    case (read filename rest lines s)
    have 1: "stat_sum (map (task_stat io) (consumed @ [filename])) =
        Add (stat_sum (map (task_stat io) consumed)) s"
      using task_stat_Some [OF read(4)]
      by (simp add: stat_sum_append stat_sum_Cons stat_sum_Nil Add_zero_right)
    have 2: "stat_sum (map pending ((ws c)[i := WSend s])) = Add s (stat_sum (map pending (ws c)))"
      using pending_update [OF read(1), of "WSend s"] read(2) by (simp add: Add_zero_left)
    have "Add (Add (stats c) (stat_sum (statsCh c))) (Add s (stat_sum (map pending (ws c)))) =
        Add (Add (Add (stats c) (stat_sum (statsCh c))) (stat_sum (map pending (ws c)))) s"
      by (simp add: Add_ac)
    also have "\<dots> = Add (Add (stat_sum (map (task_stat io) consumed)) s) ?R"
      unfolding e by (simp add: Add_ac)
    finally show ?thesis
      using t read 1 2 unfolding inv_acct_def
      by (intro exI [of _ "consumed @ [filename]"]) simp
  next
    case (send s)
    have 2: "Add s (stat_sum (map pending ((ws c)[i := WRecv]))) = stat_sum (map pending (ws c))"
      using pending_update [OF send(1), of WRecv] send(2) by (simp add: Add_zero_left)
    have "Add (Add (stats c) (stat_sum (statsCh c @ [s]))) (stat_sum (map pending ((ws c)[i := WRecv]))) =
        Add (Add (stats c) (stat_sum (statsCh c))) (Add s (stat_sum (map pending ((ws c)[i := WRecv]))))"
      by (simp add: stat_sum_append stat_sum_Cons stat_sum_Nil Add_zero_right Add_zero_left Add_ac)
    also have "\<dots> = Add (stat_sum (map (task_stat io) consumed)) ?R"
      unfolding 2 e ..
    finally show ?thesis
      using t send unfolding inv_acct_def by (intro exI [of _ consumed]) simp
  qed
qed

lemma inv_acct_aggregator:
  assumes "inv_acct io root c" and "step_aggregator c = Next c'"
  shows "inv_acct io root c'"
proof -
  obtain consumed where t: "tasks root = consumed @ ch c @ unsent (walk_rest c)"
    and e: "Add (Add (stats c) (stat_sum (statsCh c))) (stat_sum (map pending (ws c))) =
        Add (stat_sum (map (task_stat io) consumed))
          (if stat_pending (walk_rest c) then zero_Stats else dir_stat root)"
    using assms(1) unfolding inv_acct_def by blast
  from assms(2) show ?thesis
  proof (cases rule: step_aggregator_Next)
    case (merge s rest)
    have "Add (Add (Add (stats c) s) (stat_sum rest)) (stat_sum (map pending (ws c))) =
       Add (Add (stats c) (stat_sum (statsCh c))) (stat_sum (map pending (ws c)))"
      unfolding merge(2) by (simp add: stat_sum_Cons Add_ac)
    then show ?thesis
      using t e merge unfolding inv_acct_def by (intro exI [of _ consumed]) simp
  next
    case exit
    then show ?thesis using t e unfolding inv_acct_def by (intro exI [of _ consumed]) simp
  qed
qed

lemma inv_acct_main:
  assumes "inv_acct io root c" and "step_main c = Next c'"
  shows "inv_acct io root c'"
  using assms(2,1) unfolding inv_acct_def
  by (cases rule: step_main_Next) auto

lemma inv_step:
  assumes "inv io root c" and "step io a c = Next c'"
  shows "inv io root c'"
proof -
  have p: "inv_prod root c" and s: "inv_sync c" and t: "inv_acct io root c"
    using assms(1) unfolding inv_def by simp_all
  have "inv_acct io root c'"
  proof (cases a)
    case Producer
    then show ?thesis using inv_acct_producer [OF t p] assms(2) by simp
  next
    case (Worker i)
    then show ?thesis using inv_acct_worker [OF t] assms(2) by simp
  next
    case Aggregator
    then show ?thesis using inv_acct_aggregator [OF t] assms(2) by simp
  next
    case Main
    then show ?thesis using inv_acct_main [OF t] assms(2) by simp
  qed
  then show ?thesis
    using inv_prod_step [OF p assms(2)] inv_sync_step [OF s assms(2)] unfolding inv_def by simp
qed

lemma unsent_walk: "unsent (map SendTask ts @ acts) = ts @ unsent acts"
  by (induction ts) simp_all

lemma stat_pending_walk: "stat_pending (map SendTask ts @ acts) = stat_pending acts"
  by (induction ts) simp_all

lemma wf_rest_walk:
  "stat_pending acts \<Longrightarrow> wf_rest d acts \<Longrightarrow> wf_rest d (map SendTask ts @ acts)"
  by (induction ts) (simp_all add: stat_pending_walk)

lemma stat_sum_replicate_zero: "stat_sum (replicate n zero_Stats) = zero_Stats"
  by (induction n) (simp_all add: stat_sum_Nil stat_sum_Cons Add_zero_left)

lemma inv_traverse: "inv io root (traverse workers root)"
proof -
  have 1: "inv_prod root (traverse workers root)"
    unfolding inv_prod_def traverse_def
    by (simp add: walk_spec wf_rest_walk dir_stat_def split: option.splits)
  have 2: "inv_sync (traverse workers root)"
    unfolding inv_sync_def traverse_def by (simp add: active_def)
  have "unsent (walk root) = tasks root" "stat_pending (walk root)"
    by (simp_all add: walk_spec unsent_walk stat_pending_walk tasks_def split: option.splits)
  then have 3: "inv_acct io root (traverse workers root)"
    unfolding inv_acct_def traverse_def
    by (intro exI [of _ "[]"])
       (simp add: stat_sum_Nil stat_sum_replicate_zero Add_zero_left Add_zero_right)
  show ?thesis using 1 2 3 unfolding inv_def by simp
qed

lemma inv_exec:
  assumes "exec io sched (traverse workers root) = Next c"
  shows "inv io root c"
  using assms inv_traverse by (rule exec_invariant) (rule inv_step)

section \<open>No panic, no deadlock, termination\<close>

lemma step_length_ws: "step io a c = Next c' \<Longrightarrow> length (ws c') = length (ws c)"
proof (cases a)
  case Producer
  assume "step io a c = Next c'"
  with Producer have "step_producer c = Next c'" by simp
  then show ?thesis by (cases rule: step_producer_Next) simp_all
next
  case (Worker i)
  assume "step io a c = Next c'"
  with Worker have "step_worker io i c = Next c'" by simp
  then show ?thesis by (cases rule: step_worker_Next) simp_all
next
  case Aggregator
  assume "step io a c = Next c'"
  with Aggregator have "step_aggregator c = Next c'" by simp
  then show ?thesis by (cases rule: step_aggregator_Next) simp_all
next
  case Main
  assume "step io a c = Next c'"
  with Main have "step_main c = Next c'" by simp
  then show ?thesis by (cases rule: step_main_Next) simp_all
qed

lemma exec_length_ws:
  assumes "exec io sched c0 = Next c"
  shows "length (ws c) = length (ws c0)"
  using assms by (rule exec_invariant) (simp_all add: step_length_ws)

lemma all_done_closed:
  assumes "inv_sync c" and "ws c \<noteq> []" and "wg c = 0"
  shows "ch_closed c \<and> ch c = [] \<and> (\<forall>w \<in> set (ws c). w = WDone)"
proof -
  have a: "\<forall>w \<in> set (ws c). w = WDone"
    using assms(1,3) active_zero unfolding inv_sync_def by auto
  moreover have "WDone \<in> set (ws c)"
    using a assms(2) by (cases "ws c") auto
  ultimately show ?thesis using assms(1) unfolding inv_sync_def by blast
qed

lemma active_pos: "i < length wl \<Longrightarrow> wl ! i \<noteq> WDone \<Longrightarrow> 0 < active wl"
  unfolding active_def by (auto simp: filter_empty_conv)

text \<open>With a reader worker, no step panics.\<close>

lemma no_panic_step:
  assumes "inv io root c" and "ws c \<noteq> []"
  shows "step io a c \<noteq> Panic m"
proof -
  have p: "inv_prod root c" and s: "inv_sync c"
    using assms(1) unfolding inv_def by simp_all
  have closed: "stats_closed c \<Longrightarrow> walk_rest c = [] \<and> (\<forall>w \<in> set (ws c). w = WDone)"
  proof -
    assume "stats_closed c"
    then have "wg c = 0" using s unfolding inv_sync_def by auto
    from all_done_closed [OF s assms(2) this] show ?thesis
      using p unfolding inv_prod_def by simp
  qed
  show ?thesis
  proof (cases a)
    case Producer
    show ?thesis
      using p closed unfolding Producer step.simps step_producer_def inv_prod_def
      by (auto split: list.splits act.splits)
  next
    case (Worker i)
    have "i < length (ws c) \<Longrightarrow> ws c ! i = WRecv \<Longrightarrow> 1 \<le> wg c"
      using active_pos [of i "ws c"] s unfolding inv_sync_def by simp
    moreover have "i < length (ws c) \<Longrightarrow> ws c ! i = WSend x \<Longrightarrow> \<not> stats_closed c" for x
      using closed nth_mem [of i "ws c"] by auto
    ultimately show ?thesis
      unfolding Worker step.simps step_worker_def
      by (auto split: list.splits wstate.splits prod.splits option.splits)
  next
    case Aggregator
    show ?thesis
      using s unfolding Aggregator step.simps step_aggregator_def inv_sync_def
      by (auto split: list.splits)
  next
    case Main
    show ?thesis
      using s unfolding Main step.simps step_main_def inv_sync_def
      by (auto split: mstate.splits)
  qed
qed

lemma no_panic_exec:
  assumes "inv io root c" and "ws c \<noteq> []"
  shows "exec io sched c \<noteq> Panic m"
  using assms
proof (induction sched arbitrary: c)
  case Nil
  then show ?case by simp
next
  case (Cons a sched)
  show ?case
  proof (cases "step io a c")
    case Blocked
    then show ?thesis by simp
  next
    case (Panic m')
    then show ?thesis using no_panic_step [OF Cons.prems] by simp
  next
    case (Next c')
    have "inv io root c'" using inv_step [OF Cons.prems(1) Next] .
    moreover have "ws c' \<noteq> []" using step_length_ws [OF Next] Cons.prems(2) by auto
    ultimately show ?thesis using Cons.IH Next by simp
  qed
qed

lemma enabledI:
  assumes "step io a c = Next c'"
    and "a = Producer \<or> a = Aggregator \<or> a = Main \<or> (\<exists>i < length (ws c). a = Worker i)"
  shows "enabled io c \<noteq> []"
proof -
  have "a \<in> set (Producer # Aggregator # Main # map Worker [0..<length (ws c)])"
    using assms(2) by auto
  moreover have "case step io a c of Next _ \<Rightarrow> True | _ \<Rightarrow> False"
    using assms(1) by simp
  ultimately have "a \<in> set (enabled io c)"
    unfolding enabled_def set_filter by (intro CollectI conjI)
  then show ?thesis by auto
qed

lemma chan_cap_pos: "0 < chan_cap"
  by (simp add: chan_cap_def)

lemma producer_can_step:
  assumes "inv_prod root c" and "\<not> ch_closed c" and "ch c = []" and "statsCh c = []"
    and "\<not> stats_closed c"
  shows "\<exists>c'. step_producer c = Next c'"
proof -
  have "walk_rest c \<noteq> []" using assms(1,2) unfolding inv_prod_def by simp
  then obtain a rest where "walk_rest c = a # rest" by (cases "walk_rest c") auto
  then show ?thesis
    using assms(2-) chan_cap_pos unfolding step_producer_def by (cases a) simp_all
qed

lemma worker_recv_can_step:
  assumes "i < length (ws c)" and "ws c ! i = WRecv" and "ch c \<noteq> [] \<or> ch_closed c"
    and "1 \<le> wg c"
  shows "\<exists>c'. step_worker io i c = Next c'"
  using assms unfolding step_worker_def
  by (auto split: list.splits prod.splits option.splits)

lemma worker_send_can_step:
  assumes "i < length (ws c)" and "ws c ! i = WSend s" and "\<not> stats_closed c" and "statsCh c = []"
  shows "\<exists>c'. step_worker io i c = Next c'"
  using assms chan_cap_pos unfolding step_worker_def by simp

lemma aggregator_can_step:
  assumes "\<not> agg_done c" and "statsCh c \<noteq> [] \<or> stats_closed c" and "statsWg c = 1"
  shows "\<exists>c'. step_aggregator c = Next c'"
  using assms unfolding step_aggregator_def by (auto split: list.splits)

lemma active_witness: "0 < active wl \<Longrightarrow> \<exists>i < length wl. wl ! i \<noteq> WDone"
  unfolding active_def by (auto simp: filter_empty_conv in_set_conv_nth)

text \<open>Until \<^verbatim>\<open>traverse\<close> has returned, some goroutine can take a step.\<close>

lemma progress:
  assumes "inv io root c" and "main_pc c \<noteq> MReturned"
  shows "enabled io c \<noteq> []"
proof -
  have p: "inv_prod root c" and s: "inv_sync c"
    using assms(1) unfolding inv_def by simp_all
  have sw: "statsWg c = (if agg_done c then 0 else 1)"
    and sc: "stats_closed c \<longleftrightarrow> main_pc c = MWaitAgg \<or> main_pc c = MReturned"
    and ad: "agg_done c \<longrightarrow> stats_closed c \<and> statsCh c = []"
    and wgs: "wg c = int (active (ws c))"
    using s unfolding inv_sync_def by blast+
  show ?thesis
  proof (cases "main_pc c")
    case MReturned
    then show ?thesis using assms(2) by simp
  next
    case MCloseStats
    then have "step io Main c = Next (c\<lparr>stats_closed := True, main_pc := MWaitAgg\<rparr>)"
      using sc by (simp add: step_main_def)
    then show ?thesis by (rule enabledI) simp
  next
    case MWaitAgg
    show ?thesis
    proof (cases "agg_done c")
      case True
      then have "step io Main c = Next (c\<lparr>main_pc := MReturned\<rparr>)"
        using sw MWaitAgg by (simp add: step_main_def)
      then show ?thesis by (rule enabledI) simp
    next
      case False
      then obtain c' where "step io Aggregator c = Next c'"
        using aggregator_can_step [of c] sw sc MWaitAgg by auto
      then show ?thesis by (rule enabledI) simp
    qed
  next
    case MWaitWorkers
    then have nsc: "\<not> stats_closed c" and nad: "\<not> agg_done c" using sc ad by auto
    show ?thesis
    proof (cases "wg c = 0")
      case True
      then have "step io Main c = Next (c\<lparr>main_pc := MCloseStats\<rparr>)"
        using MWaitWorkers by (simp add: step_main_def)
      then show ?thesis by (rule enabledI) simp
    next
      case False
      then have act: "0 < active (ws c)" and wg1: "1 \<le> wg c" using wgs by auto
      show ?thesis
      proof (cases "statsCh c = []")
        case False
        then obtain c' where "step io Aggregator c = Next c'"
          using aggregator_can_step [of c] sw nad by auto
        then show ?thesis by (rule enabledI) simp
      next
        case True
        obtain i where i: "i < length (ws c)" "ws c ! i \<noteq> WDone"
          using active_witness [OF act] by blast
        show ?thesis
        proof (cases "ws c ! i")
          case WDone
          then show ?thesis using i by simp
        next
          case (WSend x)
          then obtain c' where "step io (Worker i) c = Next c'"
            using worker_send_can_step [OF i(1) _ nsc True] by auto
          then show ?thesis by (rule enabledI) (use i in simp)
        next
          case WRecv
          show ?thesis
          proof (cases "ch c \<noteq> [] \<or> ch_closed c")
            case True
            then obtain c' where "step io (Worker i) c = Next c'"
              using worker_recv_can_step [OF i(1) WRecv _ wg1] by auto
            then show ?thesis by (rule enabledI) (use i in simp)
          next
            case False
            then obtain c' where "step io Producer c = Next c'"
              using producer_can_step [OF p _ _ \<open>statsCh c = []\<close> nsc] by auto
            then show ?thesis by (rule enabledI) simp
          qed
        qed
      qed
    qed
  qed
qed

lemma worker_weight_update:
  "i < length wl \<Longrightarrow>
   sum_list (map worker_weight (wl[i := w])) + worker_weight (wl ! i) =
   sum_list (map worker_weight wl) + worker_weight w"
  by (rule sum_list_map_update)

text \<open>Every step uses up some of the steps that are left.\<close>

lemma step_decreases:
  assumes "step io a c = Next c'"
  shows "steps_left c' < steps_left c"
proof (cases a)
  case Producer
  with assms have "step_producer c = Next c'" by simp
  then show ?thesis
    by (cases rule: step_producer_Next) (simp_all add: steps_left_def)
next
  case (Worker i)
  with assms have "step_worker io i c = Next c'" by simp
  then show ?thesis
  proof (cases rule: step_worker_Next)
    case exit
    then show ?thesis using worker_weight_update [OF exit(1), of WDone]
      by (simp add: steps_left_def)
  next
    case (skip filename rest lines)
    then show ?thesis by (simp add: steps_left_def)
  next
    case (read filename rest lines s)
    then show ?thesis using worker_weight_update [OF read(1), of "WSend s"]
      by (simp add: steps_left_def)
  next
    case (send s)
    then show ?thesis using worker_weight_update [OF send(1), of WRecv]
      by (simp add: steps_left_def)
  qed
next
  case Aggregator
  with assms have "step_aggregator c = Next c'" by simp
  then show ?thesis
    by (cases rule: step_aggregator_Next) (simp_all add: steps_left_def)
next
  case Main
  with assms have "step_main c = Next c'" by simp
  then show ?thesis
    by (cases rule: step_main_Next) (simp_all add: steps_left_def)
qed

lemma exec_bounded:
  "exec io sched c = Next c' \<Longrightarrow> steps_left c' + length sched \<le> steps_left c"
proof (induction sched arbitrary: c)
  case Nil
  then show ?case by simp
next
  case (Cons a sched)
  then obtain c1 where 1: "step io a c = Next c1" and 2: "exec io sched c1 = Next c'"
    by (auto split: outcome.splits)
  show ?case using Cons.IH [OF 2] step_decreases [OF 1] by simp
qed

text \<open>With a reader worker, the stats that \<^verbatim>\<open>traverse\<close> returns.\<close>

lemma returned_stats:
  assumes "inv io root c" and "ws c \<noteq> []" and "main_pc c = MReturned"
  shows "stats c = expected io root"
proof -
  have p: "inv_prod root c" and s: "inv_sync c" and t: "inv_acct io root c"
    using assms(1) unfolding inv_def by simp_all
  have "wg c = 0" and e: "statsCh c = []"
    using s assms(3) unfolding inv_sync_def by auto
  from all_done_closed [OF s assms(2) this(1)]
  have cl: "ch_closed c" "ch c = []" and dn: "\<forall>w \<in> set (ws c). w = WDone" by auto
  have w: "walk_rest c = []" using p cl unfolding inv_prod_def by simp
  have "map pending (ws c) = map (\<lambda>_. zero_Stats) (ws c)"
    using dn by (intro map_cong) auto
  then have z: "stat_sum (map pending (ws c)) = zero_Stats"
    by (simp add: map_replicate_const stat_sum_replicate_zero)
  show ?thesis
    using t unfolding inv_acct_def expected_def
    by (simp add: w cl e z stat_sum_Nil Add_zero_right)
qed

section \<open>Runs of \<^verbatim>\<open>traverse\<close>\<close>

lemma traverse_ws: "1 \<le> workers \<Longrightarrow> ws (traverse workers root) \<noteq> []"
  by (simp add: traverse_def)

lemma traverse_no_panic:
  assumes "1 \<le> workers"
  shows "exec io sched (traverse workers root) \<noteq> Panic m"
  using no_panic_exec [OF inv_traverse traverse_ws [OF assms]] .

lemma traverse_bounded:
  assumes "exec io sched (traverse workers root) = Next c"
  shows "length sched \<le> steps_left (traverse workers root)"
  using exec_bounded [OF assms] by simp

lemma traverse_progress:
  assumes "exec io sched (traverse workers root) = Next c" and "main_pc c \<noteq> MReturned"
  shows "enabled io c \<noteq> []"
  using progress [OF inv_exec [OF assms(1)] assms(2)] .

lemma traverse_returns:
  assumes "1 \<le> workers" and "exec io sched (traverse workers root) = Next c"
    and "main_pc c = MReturned"
  shows "stats c = expected io root"
proof -
  have "ws c \<noteq> []"
    using exec_length_ws [OF assms(2)] traverse_ws [OF assms(1), of root] by auto
  then show ?thesis using returned_stats [OF inv_exec [OF assms(2)] _ assms(3)] by simp
qed

lemma walkable_visits:
  "walkable n \<Longrightarrow> list_all visit_ok (visits path n)"
  "list_all walkable ns \<Longrightarrow> list_all visit_ok (visits_names path ns)"
  by (induction path n and path ns rule: visits_visits_names.induct) simp_all

lemma walkable_visited:
  assumes "walkable root"
  shows "visited root = visits (node_name root) root" and "first_error root = None"
proof -
  have a: "list_all visit_ok (visits (node_name root) root)"
    using walkable_visits(1) [OF assms] .
  then show "visited root = visits (node_name root) root"
    unfolding visited_def by (simp add: list_all_iff)
  have d: "dropWhile visit_ok (visits (node_name root) root) = []"
    using a by (simp add: list_all_iff)
  show "first_error root = None"
    unfolding first_error_def d by simp
qed

lemma regular_paths_visits:
  "regular_paths (visits path n) = map fst (file_sizes path n)"
  "regular_paths (visits_names path ns) = map fst (file_sizes_names path ns)"
  by (induction path n and path ns rule: visits_visits_names.induct)
     (simp_all add: regular_paths_simps)

lemma count_files_sizes:
  "length (file_sizes path n) = count_files n"
  "length (file_sizes_names path ns) = sum_list (map count_files ns)"
  by (induction path n and path ns rule: file_sizes_file_sizes_names.induct) simp_all

lemma total_bytes_sizes:
  "sum_list (map snd (file_sizes path n)) = total_bytes n"
  "sum_list (map snd (file_sizes_names path ns)) = sum_list (map total_bytes ns)"
  by (induction path n and path ns rule: file_sizes_file_sizes_names.induct) simp_all

lemma directories_visits:
  "walkable n \<Longrightarrow> directories (visits path n) = count_dirs n"
  "list_all walkable ns \<Longrightarrow> directories (visits_names path ns) = sum_list (map count_dirs ns)"
  by (induction path n and path ns rule: visits_visits_names.induct)
     (simp_all add: directories_simps)

lemma task_stat_reads_fully:
  "reads_fully io (path, sz) \<Longrightarrow>
   task_stat io path = \<lparr>files = 1, dirs = 0, bytes = of_nat sz\<rparr>"
  by (simp add: task_stat_def readFile_body_def)

lemma stat_sum_readable:
  "list_all (reads_fully io) fs \<Longrightarrow>
   stat_sum (map (task_stat io) (map fst fs)) =
     \<lparr>files = of_nat (length fs), dirs = 0, bytes = of_nat (sum_list (map snd fs))\<rparr>"
proof (induction fs)
  case Nil
  then show ?case by (simp add: stat_sum_Nil zero_Stats_def)
next
  case (Cons x fs)
  obtain p sz where x: "x = (p, sz)" by (cases x)
  show ?case
    using Cons task_stat_reads_fully [of io p sz] unfolding x
    by (simp add: stat_sum_Cons Add_def)
qed

lemma expected_readable:
  assumes "walkable root" and "readable io root"
  shows "expected io root =
    \<lparr>files = of_nat (count_files root), dirs = of_nat (count_dirs root),
      bytes = of_nat (total_bytes root)\<rparr>"
proof -
  have "tasks root = map fst (file_sizes (node_name root) root)"
    by (simp add: tasks_def walkable_visited [OF assms(1)] regular_paths_visits)
  moreover have "dir_stat root = \<lparr>files = 0, dirs = of_nat (count_dirs root), bytes = 0\<rparr>"
    by (simp add: dir_stat_def walkable_visited [OF assms(1)] directories_visits(1) [OF assms(1)])
  ultimately show ?thesis
    using stat_sum_readable [OF assms(2) [unfolded readable_def]]
    by (simp add: expected_def Add_def count_files_sizes total_bytes_sizes)
qed

lemma sint_of_nat_64:
  assumes "n < 2 ^ 63"
  shows "sint (of_nat n :: 64 word) = int n"
proof -
  have "int n < 2 ^ 63" using assms by (simp add: of_nat_less_numeral_power_cancel_iff)
  then have "signed_take_bit 63 (int n) = int n"
    by (intro signed_take_bit_int_eq_self) simp_all
  then show ?thesis by (simp add: signed_of_nat)
qed

lemma visited_split:
  assumes "visits (node_name root) root = before @ (path, fi, Some e) # after"
    and "list_all visit_ok before"
  shows "visited root = before" and "first_error root = Some e"
proof -
  have b: "\<forall>x \<in> set before. visit_ok x" using assms(2) by (simp add: list_all_iff)
  have n: "\<not> visit_ok (path, fi, Some e)" by simp
  show "visited root = before"
    unfolding visited_def assms(1) using b n by (simp add: takeWhile_append2)
  have "dropWhile visit_ok (before @ (path, fi, Some e) # after) = (path, fi, Some e) # after"
    using b n by (simp add: dropWhile_append2)
  then show "first_error root = Some e"
    unfolding first_error_def assms(1) by simp
qed

text \<open>Every line that the producer has logged is on the error stream.\<close>

lemma logged_step:
  assumes "LogLine l \<in> set (walk_rest c) \<or> l \<in> set (stderr c)"
    and "step io a c = Next c'"
  shows "LogLine l \<in> set (walk_rest c') \<or> l \<in> set (stderr c')"
proof (cases a)
  case Producer
  with assms(2) have "step_producer c = Next c'" by simp
  then show ?thesis using assms(1) by (cases rule: step_producer_Next) auto
next
  case (Worker i)
  with assms(2) have "step_worker io i c = Next c'" by simp
  then show ?thesis using assms(1) by (cases rule: step_worker_Next) auto
next
  case Aggregator
  with assms(2) have "step_aggregator c = Next c'" by simp
  then show ?thesis using assms(1) by (cases rule: step_aggregator_Next) auto
next
  case Main
  with assms(2) have "step_main c = Next c'" by simp
  then show ?thesis using assms(1) by (cases rule: step_main_Next) auto
qed

lemma logged_exec:
  assumes "exec io sched (traverse workers root) = Next c" and "LogLine l \<in> set (walk root)"
  shows "LogLine l \<in> set (walk_rest c) \<or> l \<in> set (stderr c)"
proof -
  have "LogLine l \<in> set (walk_rest (traverse workers root)) \<or>
      l \<in> set (stderr (traverse workers root))"
    using assms(2) by (simp add: traverse_def)
  with assms(1) show ?thesis by (rule exec_invariant) (rule logged_step)
qed

lemma returned_walk_rest:
  assumes "1 \<le> workers" and "exec io sched (traverse workers root) = Next c"
    and "main_pc c = MReturned"
  shows "walk_rest c = []"
proof -
  have i: "inv io root c" using inv_exec [OF assms(2)] .
  then have p: "inv_prod root c" and s: "inv_sync c" unfolding inv_def by simp_all
  have "ws c \<noteq> []"
    using exec_length_ws [OF assms(2)] traverse_ws [OF assms(1), of root] by auto
  moreover have "wg c = 0" using s assms(3) unfolding inv_sync_def by auto
  ultimately have "ch_closed c" using all_done_closed [OF s] by simp
  then show ?thesis using p unfolding inv_prod_def by simp
qed

text \<open>The producer runs its program in order.\<close>

lemma script_step:
  assumes "\<exists>done. walk root = done @ walk_rest c" and "step io a c = Next c'"
  shows "\<exists>done. walk root = done @ walk_rest c'"
proof -
  obtain d where d: "walk root = d @ walk_rest c" using assms(1) by blast
  show ?thesis
  proof (cases a)
    case Producer
    with assms(2) have "step_producer c = Next c'" by simp
    then obtain x where "walk_rest c = x # walk_rest c'"
      by (cases rule: step_producer_Next) auto
    then have "walk root = (d @ [x]) @ walk_rest c'" using d by simp
    then show ?thesis by blast
  next
    case (Worker i)
    with assms(2) have "step_worker io i c = Next c'" by simp
    then have "walk_rest c' = walk_rest c" by (cases rule: step_worker_Next) auto
    then show ?thesis using d by auto
  next
    case Aggregator
    with assms(2) have "step_aggregator c = Next c'" by simp
    then have "walk_rest c' = walk_rest c" by (cases rule: step_aggregator_Next) auto
    then show ?thesis using d by auto
  next
    case Main
    with assms(2) have "step_main c = Next c'" by simp
    then have "walk_rest c' = walk_rest c" by (cases rule: step_main_Next) auto
    then show ?thesis using d by auto
  qed
qed

lemma script_exec:
  assumes "exec io sched (traverse workers root) = Next c"
  shows "\<exists>done. walk root = done @ walk_rest c"
proof -
  have "\<exists>done. walk root = done @ walk_rest (traverse workers root)"
    by (simp add: traverse_def)
  with assms show ?thesis by (rule exec_invariant) (rule script_step)
qed

text \<open>Only the producer's last act closes the task channel.\<close>

lemma closes_tasks:
  assumes "step io a c = Next c'" and "\<not> ch_closed c" and "ch_closed c'"
  shows "a = Producer \<and> (\<exists>rest. walk_rest c = CloseTasks # rest)"
proof (cases a)
  case Producer
  with assms(1) have "step_producer c = Next c'" by simp
  then show ?thesis using assms(2,3) Producer by (cases rule: step_producer_Next) auto
next
  case (Worker i)
  with assms(1) have "step_worker io i c = Next c'" by simp
  then show ?thesis using assms(2,3) by (cases rule: step_worker_Next) auto
next
  case Aggregator
  with assms(1) have "step_aggregator c = Next c'" by simp
  then show ?thesis using assms(2,3) by (cases rule: step_aggregator_Next) auto
next
  case Main
  with assms(1) have "step_main c = Next c'" by simp
  then show ?thesis using assms(2,3) by (cases rule: step_main_Next) auto
qed

text \<open>Only line 123 of \<^verbatim>\<open>traverse\<close> closes the stats channel.\<close>

lemma closes_stats:
  assumes "step io a c = Next c'" and "\<not> stats_closed c" and "stats_closed c'"
  shows "a = Main \<and> main_pc c = MCloseStats"
proof (cases a)
  case Producer
  with assms(1) have "step_producer c = Next c'" by simp
  then show ?thesis using assms(2,3) by (cases rule: step_producer_Next) auto
next
  case (Worker i)
  with assms(1) have "step_worker io i c = Next c'" by simp
  then show ?thesis using assms(2,3) by (cases rule: step_worker_Next) auto
next
  case Aggregator
  with assms(1) have "step_aggregator c = Next c'" by simp
  then show ?thesis using assms(2,3) by (cases rule: step_aggregator_Next) auto
next
  case Main
  with assms(1) have "step_main c = Next c'" by simp
  then show ?thesis using assms(2,3) Main by (cases rule: step_main_Next) auto
qed

lemma is_stat_walk: "filter is_stat (map SendTask ts) = []"
  by (induction ts) simp_all

lemma walk_one_stat: "filter is_stat (walk root) = [SendStat (dir_stat root)]"
  by (simp add: walk_spec is_stat_walk dir_stat_def split: option.splits)

lemma walk_ends:
  "\<exists>pre. walk root = pre @ [SendStat (dir_stat root), CloseTasks] \<and>
     filter is_stat pre = [] \<and> CloseTasks \<notin> set pre"
proof (cases "first_error root")
  case None
  have "walk root = map SendTask (tasks root) @ [SendStat (dir_stat root), CloseTasks]"
    by (simp add: walk_spec None tasks_def dir_stat_def)
  moreover have "CloseTasks \<notin> set (map SendTask (tasks root))" by auto
  ultimately show ?thesis using is_stat_walk by blast
next
  case (Some e)
  let ?l = "LogLine (''error walking '' @ node_name root @ '': '' @ error_text e @ ''\<newline>'')"
  have "walk root = (map SendTask (tasks root) @ [?l]) @ [SendStat (dir_stat root), CloseTasks]"
    by (simp add: walk_spec Some tasks_def dir_stat_def)
  moreover have "CloseTasks \<notin> set (map SendTask (tasks root) @ [?l])" by auto
  moreover have "filter is_stat (map SendTask (tasks root) @ [?l]) = []"
    by (simp add: is_stat_walk)
  ultimately show ?thesis by blast
qed

lemma returns_step:
  assumes "step io a c = Next c'" and "main_pc c \<noteq> MReturned" and "main_pc c' = MReturned"
  shows "a = Main \<and> main_pc c = MWaitAgg \<and> statsWg c = 0"
proof (cases a)
  case Producer
  with assms(1) have "step_producer c = Next c'" by simp
  then show ?thesis using assms(2,3) by (cases rule: step_producer_Next) auto
next
  case (Worker i)
  with assms(1) have "step_worker io i c = Next c'" by simp
  then show ?thesis using assms(2,3) by (cases rule: step_worker_Next) auto
next
  case Aggregator
  with assms(1) have "step_aggregator c = Next c'" by simp
  then show ?thesis using assms(2,3) by (cases rule: step_aggregator_Next) auto
next
  case Main
  with assms(1) have "step_main c = Next c'" by simp
  then show ?thesis using assms(2,3) Main by (cases rule: step_main_Next) auto
qed

lemma readFile_body_stat:
  "snd (readFile_body io filename) =
     (if read_ok io filename
      then Some \<lparr>files = 1, dirs = 0, bytes = copy_n (io filename)\<rparr> else None)"
  by (simp add: readFile_body_def read_ok_def split: option.splits)

lemma readFile_body_lines:
  "fst (readFile_body io filename) = [] \<longleftrightarrow> read_ok io filename"
  by (simp add: readFile_body_def read_ok_def split: option.splits)

lemma task_stat_read_ok:
  "task_stat io filename =
     (if read_ok io filename
      then \<lparr>files = 1, dirs = 0, bytes = copy_n (io filename)\<rparr> else zero_Stats)"
  by (simp add: task_stat_def readFile_body_stat)

lemma stat_sum_tasks:
  "stat_sum (map (task_stat io) fs) =
     \<lparr>files = of_nat (length (filter (read_ok io) fs)), dirs = 0,
      bytes = sum_list (map (\<lambda>f. copy_n (io f)) (filter (read_ok io) fs))\<rparr>"
  by (induction fs)
     (simp_all add: stat_sum_Nil stat_sum_Cons task_stat_read_ok Add_def zero_Stats_def)

lemma worker_takes_task:
  assumes "i < length (ws c)" and "ws c ! i = WRecv" and "ch c = filename # rest"
  shows "\<exists>c'. step io (Worker i) c = Next c' \<and> ch c' = rest \<and> statsCh c' = statsCh c \<and>
      stats c' = stats c \<and>
      ws c' = (ws c)[i := if read_ok io filename
                          then WSend \<lparr>files = 1, dirs = 0, bytes = copy_n (io filename)\<rparr>
                          else WRecv] \<and>
      stderr c' = stderr c @ fst (readFile_body io filename)"
proof (cases "readFile_body io filename")
  case (Pair lines r)
  have r: "r = (if read_ok io filename
      then Some \<lparr>files = 1, dirs = 0, bytes = copy_n (io filename)\<rparr> else None)"
    using readFile_body_stat [of io filename] Pair by simp
  show ?thesis
  proof (cases "read_ok io filename")
    case True
    then show ?thesis using assms Pair r by (simp add: step_worker_def)
  next
    case False
    have "(ws c)[i := WRecv] = ws c" using assms(1,2) by (metis list_update_id)
    then show ?thesis using False assms Pair r by (simp add: step_worker_def)
  qed
qed

lemma worker_sends_stat:
  assumes "i < length (ws c)" and "ws c ! i = WSend s" and "\<not> stats_closed c"
    and "length (statsCh c) < chan_cap"
  shows "\<exists>c'. step io (Worker i) c = Next c' \<and> statsCh c' = statsCh c @ [s] \<and>
      ws c' = (ws c)[i := WRecv]"
  using assms by (simp add: step_worker_def)

lemma walk_stat: "SendStat s \<in> set (walk root) \<Longrightarrow> s = dir_stat root"
proof -
  assume "SendStat s \<in> set (walk root)"
  then have "SendStat s \<in> set (filter is_stat (walk root))" by simp
  then show ?thesis unfolding walk_one_stat by simp
qed

text \<open>For every worker count: what \<^verbatim>\<open>traverse\<close> returns is made of the stats that were sent.\<close>

lemma returned_stats_any:
  assumes "exec io sched (traverse workers root) = Next c" and "main_pc c = MReturned"
  shows "\<exists>n \<le> length (tasks root).
     stats c =
       Add (stat_sum (map (task_stat io) (take n (tasks root))))
         (if stat_pending (walk_rest c) then zero_Stats else dir_stat root)"
proof -
  have i: "inv io root c" using inv_exec [OF assms(1)] .
  then have s: "inv_sync c" and t: "inv_acct io root c" unfolding inv_def by simp_all
  have "wg c = 0" and e: "statsCh c = []"
    using s assms(2) unfolding inv_sync_def by auto
  then have dn: "\<forall>w \<in> set (ws c). w = WDone"
    using s active_zero [of "ws c"] unfolding inv_sync_def by simp
  have "map pending (ws c) = map (\<lambda>_. zero_Stats) (ws c)"
    using dn by (intro map_cong) auto
  then have z: "stat_sum (map pending (ws c)) = zero_Stats"
    by (simp add: map_replicate_const stat_sum_replicate_zero)
  obtain consumed where c1: "tasks root = consumed @ ch c @ unsent (walk_rest c)"
    and c2: "Add (Add (stats c) (stat_sum (statsCh c))) (stat_sum (map pending (ws c))) =
        Add (stat_sum (map (task_stat io) consumed))
          (if stat_pending (walk_rest c) then zero_Stats else dir_stat root)"
    using t unfolding inv_acct_def by blast
  have "take (length consumed) (tasks root) = consumed" unfolding c1 by simp
  moreover have "length consumed \<le> length (tasks root)" unfolding c1 by simp
  moreover have "stats c = Add (stat_sum (map (task_stat io) consumed))
          (if stat_pending (walk_rest c) then zero_Stats else dir_stat root)"
    using c2 by (simp add: e z stat_sum_Nil Add_zero_right)
  ultimately show ?thesis by metis
qed

section \<open>The output file\<close>

lemma flag_simps:
  "O_APPEND AND O_ACCMODE = O_RDONLY" "O_APPEND AND O_CREATE = 0" "O_APPEND AND O_TRUNC = 0"
  "O_APPEND AND O_APPEND \<noteq> 0"
  "(O_WRONLY OR O_CREATE OR O_TRUNC) AND O_ACCMODE = O_WRONLY"
  "(O_WRONLY OR O_CREATE OR O_TRUNC) AND O_CREATE \<noteq> 0"
  "(O_WRONLY OR O_CREATE OR O_TRUNC) AND O_TRUNC \<noteq> 0"
  "(O_WRONLY OR O_CREATE OR O_TRUNC) AND O_APPEND = 0"
  "O_WRONLY \<noteq> O_RDONLY" "O_RDONLY \<noteq> O_WRONLY" "O_APPEND \<noteq> 0"
  by (simp_all add: O_APPEND_def O_ACCMODE_def O_RDONLY_def O_CREATE_def O_TRUNC_def O_WRONLY_def)

text \<open>The file that \<^verbatim>\<open>main\<close> opens for the data line is open for reading only.\<close>

lemma OpenFile_append:
  "OpenFile fs O_APPEND =
     (case content fs of
        None \<Rightarrow> (Inl ENOENT, fs)
      | Some data \<Rightarrow>
          if may_read fs then (Inr \<lparr>f_access = O_RDONLY, f_append = True\<rparr>, fs)
          else (Inl EACCES, fs))"
  by (simp add: OpenFile_def flag_simps Let_def split: option.splits)

lemma Write_read_only: "f_access f = O_RDONLY \<Longrightarrow> Write (Some f) data fs = (Some EBADF, fs)"
  by (simp add: Write_def)

lemma WriteFile_header:
  "WriteFile fs data =
     (case content fs of
        None \<Rightarrow> if may_create fs then (None, fs\<lparr>content := Some data\<rparr>) else (Some EACCES, fs)
      | Some old \<Rightarrow> if may_write fs then (None, fs\<lparr>content := Some data\<rparr>) else (Some EACCES, fs))"
  by (simp add: WriteFile_def OpenFile_def Write_def flag_simps Let_def split: option.splits)

lemma open_output_content:
  "open_output outputFile fs = Inr (f, fs1, lines) \<Longrightarrow>
   content fs1 = Some (case content fs of None \<Rightarrow> header | Some old \<Rightarrow> old) \<and>
   (f = None \<or> (\<exists>x. f = Some x \<and> f_access x = O_RDONLY))"
  by (auto simp: open_output_def OpenFile_append WriteFile_header
      split: option.splits if_splits)

lemma report_content:
  "f = None \<or> (\<exists>x. f = Some x \<and> f_access x = O_RDONLY) \<Longrightarrow>
   report workers outputFile tm s f fs = (fs2, lines) \<Longrightarrow> fs2 = fs"
  by (auto simp: report_def Write_def Let_def split: prod.splits)

lemma main_Exit_0:
  assumes "main workers outputFile args tree io tm fs sched = Exit 0 fs' lines"
  shows "content fs' = Some (case content fs of None \<Rightarrow> header | Some old \<Rightarrow> old)"
proof -
  have l: "length args = 1" using assms unfolding main_def by (auto split: if_splits)
  show ?thesis
  proof (cases "open_output outputFile fs")
    case (Inl x)
    obtain status fs1 l1 where x: "x = (status, fs1, l1)" by (cases x) auto
    have "status = 2" using Inl x
      by (auto simp: open_output_def OpenFile_append WriteFile_header Let_def
          split: option.splits if_splits prod.splits sum.splits)
    then show ?thesis using assms l Inl x unfolding main_def by (simp add: Let_def)
  next
    case (Inr y)
    obtain f fs1 l1 where y: "y = (f, fs1, l1)" by (cases y) auto
    note oc = open_output_content [OF Inr [unfolded y]]
    obtain c where c: "exec io sched (traverse workers (tree (hd args))) = Next c"
      and r: "main_pc c = MReturned"
      using assms l Inr y unfolding main_def
      by (auto simp: Let_def split: outcome.splits if_splits)
    obtain fs2 l2 where rp: "report workers outputFile tm (stats c) f fs1 = (fs2, l2)"
      by (cases "report workers outputFile tm (stats c) f fs1") auto
    have "fs2 = fs1" using report_content [OF _ rp] oc by blast
    moreover have "fs' = fs2"
      using assms l Inr y c r rp unfolding main_def by (simp add: Let_def)
    ultimately show ?thesis using oc by simp
  qed
qed

lemma root_fails_walk:
  assumes "root = StatErr name msg \<or> root = DirErr name msg"
  shows "walk root =
     [LogLine (''error walking '' @ name @ '': '' @ msg @ ''\<newline>''),
      SendStat \<lparr>files = 0, dirs = 0, bytes = 0\<rparr>, CloseTasks]"
  using assms by (auto simp: walk_def Walk_def walkFn_def)

lemma root_fails_expected:
  assumes "root = StatErr name msg \<or> root = DirErr name msg"
  shows "expected io root = \<lparr>files = 0, dirs = 0, bytes = 0\<rparr>"
  using assms
  by (auto simp: expected_def tasks_def dir_stat_def visited_def regular_paths_def
      directories_def stat_sum_Nil Add_def zero_Stats_def)

lemma main_not_Crashed:
  assumes "1 \<le> workers"
  shows "main workers outputFile args tree io tm fs sched \<noteq> Crashed m"
  using traverse_no_panic [OF assms, of io sched "tree (hd args)"]
  unfolding main_def
  by (auto simp: Let_def split: sum.splits prod.splits outcome.splits)

lemma main_Exit_returned:
  assumes "length args = 1" and "open_output outputFile fs = Inr (f, fs1, l1)"
    and "exec io sched (traverse workers (tree (hd args))) = Next c" and "main_pc c = MReturned"
  shows "\<exists>fs' hello l2. main workers outputFile args tree io tm fs sched =
      Exit 0 fs' (hello # l1 @ stderr c @ l2)"
  using assms unfolding main_def
  by (auto simp: Let_def split: prod.splits)

lemma stat_pending_filter: "stat_pending acts \<longleftrightarrow> filter is_stat acts \<noteq> []"
  by (induction acts rule: stat_pending.induct) simp_all

text \<open>What the producer has sent of its one stat, by what is left of its program.\<close>

lemma emitted_stat:
  assumes "walk root = done @ rest"
  shows "filter is_stat done = (if stat_pending rest then [] else [SendStat (dir_stat root)])"
proof -
  have e: "filter is_stat done @ filter is_stat rest = [SendStat (dir_stat root)]"
    using walk_one_stat [of root] unfolding assms by simp
  show ?thesis
  proof (cases "stat_pending rest")
    case True
    then have "filter is_stat rest \<noteq> []" by (simp add: stat_pending_filter)
    then have "filter is_stat done = []"
      using e by (cases "filter is_stat done") auto
    then show ?thesis using True by simp
  next
    case False
    then have "filter is_stat rest = []" by (simp add: stat_pending_filter)
    then show ?thesis using e False by simp
  qed
qed

lemma dies_in_None:
  "(\<And>m. exec io sched c \<noteq> Panic m) \<Longrightarrow> dies_in io sched c = None"
proof (induction sched arbitrary: c)
  case Nil
  then show ?case by simp
next
  case (Cons a sched)
  show ?case
  proof (cases "step io a c")
    case Blocked
    then show ?thesis by simp
  next
    case (Panic m)
    then show ?thesis using Cons.prems [of m] by simp
  next
    case (Next c')
    then have "\<And>m. exec io sched c' \<noteq> Panic m" using Cons.prems by simp
    then show ?thesis using Cons.IH Next by simp
  qed
qed

section \<open>The example inputs, evaluated\<close>

lemma Join_examples:
  "Join ''root'' ''a'' = ''root/a''" "Join ''root'' ''sub'' = ''root/sub''"
  "Join ''root/sub'' ''b'' = ''root/sub/b''" "Join ''root/sub'' ''c'' = ''root/sub/c''"
  "Join ''d'' ''a'' = ''d/a''" "Join ''d'' ''b'' = ''d/b''"
  "Join ''r'' ''a'' = ''r/a''" "Join ''r'' ''locked'' = ''r/locked''" "Join ''r'' ''z'' = ''r/z''"
  by (simp_all add: Join_def Clean_def)

lemma small_tree_ok: "walkable small_tree \<and> readable (healthy_io small_tree) small_tree"
  by (simp add: small_tree_def readable_def healthy_io_def Join_examples)

lemma small_tree_counts:
  "count_files small_tree = 3" "count_dirs small_tree = 2" "total_bytes small_tree = 60"
  by (simp_all add: small_tree_def)

lemma walk_small_tree:
  "walk small_tree =
     [SendTask ''root/a'', SendTask ''root/sub/b'', SendTask ''root/sub/c'',
      SendStat \<lparr>files = 0, dirs = 2, bytes = 0\<rparr>, CloseTasks]"
  by (simp add: walk_def Walk_def small_tree_def walkFn_def Join_examples)

lemma read_small_tree:
  "readFile_body (healthy_io small_tree) ''root/a'' =
     ([], Some \<lparr>files = 1, dirs = 0, bytes = 10\<rparr>)"
  "readFile_body (healthy_io small_tree) ''root/sub/b'' =
     ([], Some \<lparr>files = 1, dirs = 0, bytes = 20\<rparr>)"
  "readFile_body (healthy_io small_tree) ''root/sub/c'' =
     ([], Some \<lparr>files = 1, dirs = 0, bytes = 30\<rparr>)"
  by (simp_all add: readFile_body_def healthy_io_def small_tree_def Join_examples)

lemmas step_defs =
  step_producer_def step_worker_def step_aggregator_def step_main_def chan_cap_def

lemma exec_small_tree:
  "exec (healthy_io small_tree) small_sched (traverse 2 small_tree) =
     Next \<lparr>walk_rest = [], ws = [WDone, WDone], ch = [], ch_closed = True, statsCh = [],
       stats_closed = True, wg = 0, stats = \<lparr>files = 3, dirs = 2, bytes = 60\<rparr>,
       agg_done = True, statsWg = 0, main_pc = MReturned, stderr = []\<rparr>"
  by (simp add: small_sched_def traverse_def walk_small_tree read_small_tree step_defs
      Add_def zero_Stats_def eval_nat_numeral)

lemma big_tree_ok: "walkable big_tree \<and> readable (healthy_io big_tree) big_tree"
  by (simp add: big_tree_def readable_def healthy_io_def Join_examples)

lemma walk_big_tree:
  "walk big_tree =
     [SendTask ''d/a'', SendTask ''d/b'', SendStat \<lparr>files = 0, dirs = 1, bytes = 0\<rparr>, CloseTasks]"
  by (simp add: walk_def Walk_def big_tree_def walkFn_def Join_examples)

lemma read_big_tree:
  "readFile_body (healthy_io big_tree) ''d/a'' =
     ([], Some \<lparr>files = 1, dirs = 0, bytes = 2 ^ 62\<rparr>)"
  "readFile_body (healthy_io big_tree) ''d/b'' =
     ([], Some \<lparr>files = 1, dirs = 0, bytes = 2 ^ 62\<rparr>)"
  by (simp_all add: readFile_body_def healthy_io_def big_tree_def Join_examples)

lemma exec_big_tree:
  "exec (healthy_io big_tree) big_sched (traverse 1 big_tree) =
     Next \<lparr>walk_rest = [], ws = [WDone], ch = [], ch_closed = True, statsCh = [],
       stats_closed = True, wg = 0, stats = \<lparr>files = 2, dirs = 1, bytes = 2 ^ 63\<rparr>,
       agg_done = True, statsWg = 0, main_pc = MReturned, stderr = []\<rparr>"
  by (simp add: big_sched_def traverse_def walk_big_tree read_big_tree step_defs
      Add_def zero_Stats_def)

lemma exec_single:
  "exec (healthy_io small_tree) single_sched (traverse 1 small_tree) =
     Next \<lparr>walk_rest = [], ws = [WDone], ch = [], ch_closed = True, statsCh = [],
       stats_closed = True, wg = 0, stats = \<lparr>files = 3, dirs = 2, bytes = 60\<rparr>,
       agg_done = True, statsWg = 0, main_pc = MReturned, stderr = []\<rparr>"
  by (simp add: single_sched_def traverse_def walk_small_tree read_small_tree step_defs
      Add_def zero_Stats_def)

lemma exec_early:
  "exec (healthy_io small_tree) early_sched (traverse 0 small_tree) =
     Next \<lparr>walk_rest = walk small_tree, ws = [], ch = [], ch_closed = False, statsCh = [],
       stats_closed = True, wg = 0, stats = \<lparr>files = 0, dirs = 0, bytes = 0\<rparr>,
       agg_done = True, statsWg = 0, main_pc = MReturned, stderr = []\<rparr>"
  by (simp add: early_sched_def traverse_def step_defs zero_Stats_def)

lemma exec_late:
  "exec (healthy_io small_tree) late_sched (traverse 0 small_tree) =
     Panic ''send on closed channel''"
  by (simp add: late_sched_def traverse_def walk_small_tree step_defs zero_Stats_def)

lemma walk_broken_tree:
  "walk broken_tree =
     [SendTask ''r/a'', LogLine ''error walking r: open r/locked: permission denied\<newline>'',
      SendStat \<lparr>files = 0, dirs = 1, bytes = 0\<rparr>, CloseTasks]"
  by (simp add: walk_def Walk_def broken_tree_def walkFn_def Join_examples)

lemma visits_broken_tree:
  "visits (node_name broken_tree) broken_tree =
     [(''r'', Some Directory, None), (''r/a'', Some Regular, None)]
     @ (''r/locked'', Some Directory, Some (OSError ''open r/locked: permission denied''))
     # [(''r/z'', Some Regular, None)]"
  by (simp add: broken_tree_def Join_examples)

lemma read_broken_tree:
  "readFile_body (healthy_io broken_tree) ''r/a'' =
     ([], Some \<lparr>files = 1, dirs = 0, bytes = 5\<rparr>)"
  by (simp add: readFile_body_def healthy_io_def broken_tree_def Join_examples)

lemma exec_broken_tree:
  "exec (healthy_io broken_tree) broken_sched (traverse 1 broken_tree) =
     Next \<lparr>walk_rest = [], ws = [WDone], ch = [], ch_closed = True, statsCh = [],
       stats_closed = True, wg = 0, stats = \<lparr>files = 1, dirs = 1, bytes = 5\<rparr>,
       agg_done = True, statsWg = 0, main_pc = MReturned,
       stderr = [''error walking r: open r/locked: permission denied\<newline>'']\<rparr>"
  by (simp add: broken_sched_def traverse_def walk_broken_tree read_broken_tree step_defs
      Add_def zero_Stats_def)

lemma exec_small_closing:
  "exec (healthy_io small_tree) (take 15 small_sched) (traverse 2 small_tree) =
     Next \<lparr>walk_rest = [], ws = [WDone, WDone], ch = [], ch_closed = True,
       statsCh = [\<lparr>files = 1, dirs = 0, bytes = 20\<rparr>, \<lparr>files = 0, dirs = 2, bytes = 0\<rparr>,
                  \<lparr>files = 1, dirs = 0, bytes = 30\<rparr>],
       stats_closed = False, wg = 0, stats = \<lparr>files = 1, dirs = 0, bytes = 10\<rparr>,
       agg_done = False, statsWg = 1, main_pc = MCloseStats, stderr = []\<rparr>"
  by (simp add: small_sched_def traverse_def walk_small_tree read_small_tree step_defs
      Add_def zero_Stats_def eval_nat_numeral)

lemma exec_single_closing:
  "exec (healthy_io small_tree) (take 4 single_sched) (traverse 1 small_tree) =
     Next \<lparr>walk_rest = [CloseTasks], ws = [WRecv],
       ch = [''root/a'', ''root/sub/b'', ''root/sub/c''], ch_closed = False,
       statsCh = [\<lparr>files = 0, dirs = 2, bytes = 0\<rparr>], stats_closed = False,
       wg = 1, stats = \<lparr>files = 0, dirs = 0, bytes = 0\<rparr>, agg_done = False,
       statsWg = 1, main_pc = MWaitWorkers, stderr = []\<rparr>"
  by (simp add: single_sched_def traverse_def walk_small_tree read_small_tree step_defs
      Add_def zero_Stats_def eval_nat_numeral)

lemma tasks_small_tree: "tasks small_tree = [''root/a'', ''root/sub/b'', ''root/sub/c'']"
  by (simp add: tasks_def visited_def small_tree_def Join_examples regular_paths_def)

lemma dir_stat_small_tree: "dir_stat small_tree = \<lparr>files = 0, dirs = 2, bytes = 0\<rparr>"
  by (simp add: dir_stat_def visited_def small_tree_def Join_examples directories_def)

lemma read_faulty:
  "readFile_body faulty_io ''root/a'' = ([], Some \<lparr>files = 1, dirs = 0, bytes = 10\<rparr>)"
  "readFile_body faulty_io ''root/sub/b'' =
     ([''error closing root/sub/b: input/output error\<newline>''], None)"
  "readFile_body faulty_io ''root/sub/c'' = ([], Some \<lparr>files = 1, dirs = 0, bytes = 30\<rparr>)"
  by (simp_all add: readFile_body_def faulty_io_def healthy_io_def small_tree_def Join_examples)

lemma read_ok_faulty:
  "read_ok faulty_io ''root/a''" "\<not> read_ok faulty_io ''root/sub/b''"
  "read_ok faulty_io ''root/sub/c''"
  "copy_n (faulty_io ''root/a'') = 10" "copy_n (faulty_io ''root/sub/c'') = 30"
  "copy_err (faulty_io ''root/sub/b'') = None" "open_err (faulty_io ''root/sub/b'') = None"
  by (simp_all add: read_ok_def faulty_io_def healthy_io_def small_tree_def Join_examples)

lemma exec_faulty:
  "exec faulty_io faulty_sched (traverse 1 small_tree) =
     Next \<lparr>walk_rest = [], ws = [WDone], ch = [], ch_closed = True, statsCh = [],
       stats_closed = True, wg = 0, stats = \<lparr>files = 2, dirs = 2, bytes = 40\<rparr>,
       agg_done = True, statsWg = 0, main_pc = MReturned,
       stderr = [''error closing root/sub/b: input/output error\<newline>'']\<rparr>"
  by (simp add: faulty_sched_def traverse_def walk_small_tree read_faulty step_defs
      Add_def zero_Stats_def)

lemma exec_faulty_7:
  "exec faulty_io (take 7 faulty_sched) (traverse 1 small_tree) =
     Next \<lparr>walk_rest = [], ws = [WRecv], ch = [''root/sub/b'', ''root/sub/c''],
       ch_closed = True,
       statsCh = [\<lparr>files = 0, dirs = 2, bytes = 0\<rparr>, \<lparr>files = 1, dirs = 0, bytes = 10\<rparr>],
       stats_closed = False, wg = 1, stats = \<lparr>files = 0, dirs = 0, bytes = 0\<rparr>,
       agg_done = False, statsWg = 1, main_pc = MWaitWorkers, stderr = []\<rparr>"
  by (simp add: faulty_sched_def traverse_def walk_small_tree read_faulty step_defs
      Add_def zero_Stats_def eval_nat_numeral)

lemma main_small_fresh:
  "\<exists>fs' lines. main 2 ''benchmarks.csv'' [''root''] (\<lambda>_. small_tree) (healthy_io small_tree)
      some_timing fresh_out small_sched = Exit 0 fs' lines"
  by (simp add: main_def open_output_def OpenFile_append WriteFile_header fresh_out_def
      exec_small_tree report_def Let_def split: prod.splits)

lemma main_small_used:
  "\<exists>fs' lines. main 2 ''benchmarks.csv'' [''root''] (\<lambda>_. small_tree) (healthy_io small_tree)
      some_timing used_out small_sched = Exit 0 fs' lines"
  by (simp add: main_def open_output_def OpenFile_append used_out_def
      exec_small_tree report_def Let_def split: prod.splits)

lemma exec_missing:
  "exec (healthy_io missing_root) missing_sched (traverse 1 missing_root) =
     Next \<lparr>walk_rest = [], ws = [WDone], ch = [], ch_closed = True, statsCh = [],
       stats_closed = True, wg = 0, stats = \<lparr>files = 0, dirs = 0, bytes = 0\<rparr>,
       agg_done = True, statsWg = 0, main_pc = MReturned,
       stderr = [''error walking nowhere: lstat nowhere: no such file or directory\<newline>'']\<rparr>"
  by (simp add: missing_sched_def traverse_def missing_root_def root_fails_walk step_defs
      Add_def zero_Stats_def)

lemma exec_missing_late:
  "exec (healthy_io missing_root) missing_late_sched (traverse 0 missing_root) =
     Panic ''send on closed channel''"
  by (simp add: missing_late_sched_def traverse_def missing_root_def root_fails_walk step_defs
      zero_Stats_def)

lemma open_output_fresh:
  "open_output ''benchmarks.csv'' fresh_out =
     Inr (Some \<lparr>f_access = O_RDONLY, f_append = True\<rparr>, fresh_out\<lparr>content := Some header\<rparr>,
          [''creating output file benchmarks.csv\<newline>''])"
  by (simp add: open_output_def OpenFile_append WriteFile_header fresh_out_def Let_def)

lemma exec_early_closed:
  "exec (healthy_io small_tree) (take 2 early_sched) (traverse 0 small_tree) =
     Next \<lparr>walk_rest = walk small_tree, ws = [], ch = [], ch_closed = False, statsCh = [],
       stats_closed = True, wg = 0, stats = \<lparr>files = 0, dirs = 0, bytes = 0\<rparr>,
       agg_done = False, statsWg = 1, main_pc = MWaitAgg, stderr = []\<rparr>"
  by (simp add: early_sched_def traverse_def step_defs zero_Stats_def eval_nat_numeral)

lemma dies_in_late:
  "dies_in (healthy_io small_tree) late_sched (traverse 0 small_tree) =
     Some \<lparr>walk_rest = [SendStat \<lparr>files = 0, dirs = 2, bytes = 0\<rparr>, CloseTasks], ws = [],
       ch = [''root/a'', ''root/sub/b'', ''root/sub/c''], ch_closed = True, statsCh = [],
       stats_closed = True, wg = 0, stats = \<lparr>files = 0, dirs = 0, bytes = 0\<rparr>,
       agg_done = False, statsWg = 1, main_pc = MWaitAgg, stderr = []\<rparr>"
  by (simp add: late_sched_def traverse_def walk_small_tree step_defs zero_Stats_def)

section \<open>The claims\<close>

text \<open>
  C1. For a directory tree with F regular files totalling B bytes in D directories (the
  root included if it is a directory), where every entry can be examined and listed and
  every regular file is opened, read to its end and closed without error, and for every
  worker count of at least 1: no schedule of the goroutines panics, every schedule is
  finite, some goroutine can move until \<^verbatim>\<open>traverse\<close> has returned, and the stats returned
  are F, D and B as 64-bit integers of the machine. They are the numbers F, D and B
  themselves where these are below \<open>2 ^ 63\<close>; two files of \<open>2 ^ 62\<close> bytes are counted as
  \<open>- 2 ^ 63\<close> bytes. Where a directory cannot be listed the walk ends there, and the
  files and directories after it are not counted.
\<close>

theorem conservation:
  assumes "1 \<le> workers" and "walkable root" and "readable io root"
  shows "exec io sched (traverse workers root) \<noteq> Panic m \<and>
     (exec io sched (traverse workers root) = Next c \<longrightarrow>
        length sched \<le> steps_left (traverse workers root) \<and>
        (main_pc c \<noteq> MReturned \<longrightarrow> enabled io c \<noteq> []) \<and>
        (main_pc c = MReturned \<longrightarrow>
           stats c = \<lparr>files = of_nat (count_files root), dirs = of_nat (count_dirs root),
                      bytes = of_nat (total_bytes root)\<rparr> \<and>
           (count_files root < 2 ^ 63 \<longrightarrow> sint (files (stats c)) = int (count_files root)) \<and>
           (count_dirs root < 2 ^ 63 \<longrightarrow> sint (dirs (stats c)) = int (count_dirs root)) \<and>
           (total_bytes root < 2 ^ 63 \<longrightarrow> sint (bytes (stats c)) = int (total_bytes root))))"
proof (intro conjI impI)
  show "exec io sched (traverse workers root) \<noteq> Panic m"
    using traverse_no_panic [OF assms(1)] .
next
  assume e: "exec io sched (traverse workers root) = Next c"
  show "length sched \<le> steps_left (traverse workers root)"
    using traverse_bounded [OF e] .
  show "enabled io c \<noteq> []" if "main_pc c \<noteq> MReturned"
    using traverse_progress [OF e that] .
  assume r: "main_pc c = MReturned"
  show s: "stats c = \<lparr>files = of_nat (count_files root), dirs = of_nat (count_dirs root),
      bytes = of_nat (total_bytes root)\<rparr>"
    using traverse_returns [OF assms(1) e r] expected_readable [OF assms(2,3)] by simp
  show "sint (files (stats c)) = int (count_files root)" if "count_files root < 2 ^ 63"
    using sint_of_nat_64 [OF that] s by simp
  show "sint (dirs (stats c)) = int (count_dirs root)" if "count_dirs root < 2 ^ 63"
    using sint_of_nat_64 [OF that] s by simp
  show "sint (bytes (stats c)) = int (total_bytes root)" if "total_bytes root < 2 ^ 63"
    using sint_of_nat_64 [OF that] s by simp
qed

theorem conservation_witness:
  "(1::int) \<le> 2 \<and> walkable small_tree \<and> readable (healthy_io small_tree) small_tree \<and>
   (case exec (healthy_io small_tree) small_sched (traverse 2 small_tree) of
      Next c \<Rightarrow>
        main_pc c = MReturned \<and> stats c = \<lparr>files = 3, dirs = 2, bytes = 60\<rparr> \<and>
        sint (files (stats c)) = 3 \<and> sint (dirs (stats c)) = 2 \<and> sint (bytes (stats c)) = 60
    | _ \<Rightarrow> False)"
proof -
  have w: "(1::int) \<le> 2" by simp
  note ok = small_tree_ok [THEN conjunct1] small_tree_ok [THEN conjunct2]
  from conservation [OF w ok, of small_sched _ _] exec_small_tree
  show ?thesis
    using small_tree_ok by (simp add: small_tree_counts)
qed

theorem conservation_counterexample:
  "(1::int) \<le> 1 \<and> walkable big_tree \<and> readable (healthy_io big_tree) big_tree \<and>
   total_bytes big_tree = 2 ^ 63 \<and>
   (case exec (healthy_io big_tree) big_sched (traverse 1 big_tree) of
      Next c \<Rightarrow> main_pc c = MReturned \<and> sint (bytes (stats c)) = - (2 ^ 63)
    | _ \<Rightarrow> False) \<and>
   readable (healthy_io broken_tree) broken_tree \<and>
   count_files broken_tree = 2 \<and> count_dirs broken_tree = 2 \<and> total_bytes broken_tree = 12 \<and>
   (case exec (healthy_io broken_tree) broken_sched (traverse 1 broken_tree) of
      Next c \<Rightarrow> main_pc c = MReturned \<and> stats c = \<lparr>files = 1, dirs = 1, bytes = 5\<rparr>
    | _ \<Rightarrow> False)"
proof -
  have "readable (healthy_io broken_tree) broken_tree"
    by (simp add: broken_tree_def readable_def healthy_io_def Join_examples)
  moreover have "count_files broken_tree = 2 \<and> count_dirs broken_tree = 2 \<and>
      total_bytes broken_tree = 12"
    by (simp add: broken_tree_def)
  moreover have "total_bytes big_tree = 2 ^ 63"
    by (simp add: big_tree_def)
  ultimately show ?thesis
    using big_tree_ok by (simp add: exec_big_tree exec_broken_tree)
qed

text \<open>
  C2. For a path taken from the task channel, the worker goes on to send a stat if and
  only if open, read and close all succeed, and that stat has one file, no directories
  and the bytes read; otherwise it logs a line, sends nothing and takes the next task.
  The send puts exactly that stat on the stats channel. With at least one worker the
  stats that \<^verbatim>\<open>traverse\<close> returns are the sum of the producer's stat and, over all tasks,
  this stat or zero: a file that fails to open, to read or to close adds nothing.
\<close>

theorem reader_emits_iff_success:
  "snd (readFile_body io filename) =
     (if open_err (io filename) = None \<and> copy_err (io filename) = None \<and>
         close_err (io filename) = None
      then Some \<lparr>files = 1, dirs = 0, bytes = copy_n (io filename)\<rparr> else None) \<and>
   (fst (readFile_body io filename) = [] \<longleftrightarrow> read_ok io filename) \<and>
   (i < length (ws c) \<and> ws c ! i = WRecv \<and> ch c = filename # rest \<longrightarrow>
      (\<exists>c'. step io (Worker i) c = Next c' \<and> ch c' = rest \<and> statsCh c' = statsCh c \<and>
         stats c' = stats c \<and>
         ws c' = (ws c)[i := if read_ok io filename
                             then WSend \<lparr>files = 1, dirs = 0, bytes = copy_n (io filename)\<rparr>
                             else WRecv])) \<and>
   (i < length (ws c) \<and> ws c ! i = WSend s \<and> \<not> stats_closed c \<and>
    length (statsCh c) < chan_cap \<longrightarrow>
      (\<exists>c'. step io (Worker i) c = Next c' \<and> statsCh c' = statsCh c @ [s] \<and>
         ws c' = (ws c)[i := WRecv])) \<and>
   (1 \<le> workers \<and> exec io sched (traverse workers root) = Next d \<and> main_pc d = MReturned \<longrightarrow>
      stats d =
        Add \<lparr>files = of_nat (length (filter (read_ok io) (tasks root))), dirs = 0,
             bytes = sum_list (map (\<lambda>f. copy_n (io f)) (filter (read_ok io) (tasks root)))\<rparr>
          (dir_stat root))"
proof (intro conjI impI)
  show "snd (readFile_body io filename) =
     (if open_err (io filename) = None \<and> copy_err (io filename) = None \<and>
         close_err (io filename) = None
      then Some \<lparr>files = 1, dirs = 0, bytes = copy_n (io filename)\<rparr> else None)"
    using readFile_body_stat [of io filename] by (simp add: read_ok_def)
  show "fst (readFile_body io filename) = [] \<longleftrightarrow> read_ok io filename"
    by (rule readFile_body_lines)
next
  assume "i < length (ws c) \<and> ws c ! i = WRecv \<and> ch c = filename # rest"
  then show "\<exists>c'. step io (Worker i) c = Next c' \<and> ch c' = rest \<and> statsCh c' = statsCh c \<and>
         stats c' = stats c \<and>
         ws c' = (ws c)[i := if read_ok io filename
                             then WSend \<lparr>files = 1, dirs = 0, bytes = copy_n (io filename)\<rparr>
                             else WRecv]"
    using worker_takes_task [of i c filename rest io] by blast
next
  assume "i < length (ws c) \<and> ws c ! i = WSend s \<and> \<not> stats_closed c \<and>
    length (statsCh c) < chan_cap"
  then show "\<exists>c'. step io (Worker i) c = Next c' \<and> statsCh c' = statsCh c @ [s] \<and>
         ws c' = (ws c)[i := WRecv]"
    using worker_sends_stat [of i c s io] by blast
next
  assume "1 \<le> workers \<and> exec io sched (traverse workers root) = Next d \<and> main_pc d = MReturned"
  then have "stats d = expected io root" using traverse_returns by blast
  then show "stats d =
        Add \<lparr>files = of_nat (length (filter (read_ok io) (tasks root))), dirs = 0,
             bytes = sum_list (map (\<lambda>f. copy_n (io f)) (filter (read_ok io) (tasks root)))\<rparr>
          (dir_stat root)"
    by (simp add: expected_def stat_sum_tasks)
qed

theorem reader_emits_iff_success_witness:
  "open_err (faulty_io ''root/sub/b'') = None \<and> copy_err (faulty_io ''root/sub/b'') = None \<and>
   close_err (faulty_io ''root/sub/b'') = Some ''input/output error'' \<and>
   snd (readFile_body faulty_io ''root/sub/b'') = None \<and>
   (case exec faulty_io (take 7 faulty_sched) (traverse 1 small_tree) of
      Next c \<Rightarrow>
        ws c ! 0 = WRecv \<and> ch c = [''root/sub/b'', ''root/sub/c''] \<and>
        (case step faulty_io (Worker 0) c of
           Next c' \<Rightarrow>
             ws c' = [WRecv] \<and> ch c' = [''root/sub/c''] \<and> statsCh c' = statsCh c \<and>
             stats c' = stats c
         | _ \<Rightarrow> False)
    | _ \<Rightarrow> False) \<and>
   (1::int) \<le> 1 \<and>
   (case exec faulty_io faulty_sched (traverse 1 small_tree) of
      Next d \<Rightarrow> main_pc d = MReturned \<and> stats d = \<lparr>files = 2, dirs = 2, bytes = 40\<rparr>
    | _ \<Rightarrow> False)"
proof -
  obtain c where c: "exec faulty_io (take 7 faulty_sched) (traverse 1 small_tree) = Next c"
    and l: "0 < length (ws c)" and w: "ws c ! 0 = WRecv" "ws c = [WRecv]"
    and h: "ch c = ''root/sub/b'' # [''root/sub/c'']"
    by (simp add: exec_faulty_7)
  obtain d where d: "exec faulty_io faulty_sched (traverse 1 small_tree) = Next d"
    and r: "main_pc d = MReturned"
    by (simp add: exec_faulty)
  have k: "(1::int) \<le> 1" by simp
  note t = reader_emits_iff_success
    [of faulty_io "''root/sub/b''" 0 c "[''root/sub/c'']" _ 1 faulty_sched small_tree d]
  have 1: "snd (readFile_body faulty_io ''root/sub/b'') = None"
    using t by (simp add: faulty_io_def)
  obtain c' where c': "step faulty_io (Worker 0) c = Next c'" "ch c' = [''root/sub/c'']"
    "statsCh c' = statsCh c" "stats c' = stats c" "ws c' = [WRecv]"
    using t l w h by (auto simp: read_ok_faulty)
  have 2: "stats d = \<lparr>files = 2, dirs = 2, bytes = 40\<rparr>"
    using t k d r
    by (simp add: tasks_small_tree dir_stat_small_tree read_ok_faulty Add_def)
  have 3: "close_err (faulty_io ''root/sub/b'') = Some ''input/output error''"
    by (simp add: faulty_io_def)
  show ?thesis using 1 2 3 c c' d r w h by (simp add: read_ok_faulty)
qed

text \<open>
  C3. The merge operation \<open>Add\<close> is pairwise field addition, it is commutative and
  associative, and merging a finite sequence of stats into a total gives the same total
  for every order of the sequence.
\<close>

theorem merge_order_independent:
  "files (Add s other) = files s + files other \<and>
   dirs (Add s other) = dirs s + dirs other \<and>
   bytes (Add s other) = bytes s + bytes other \<and>
   Add a b = Add b a \<and>
   Add (Add a b) c = Add a (Add b c) \<and>
   (mset xs = mset ys \<longrightarrow> merge_all z xs = merge_all z ys)"
proof -
  have fields: "files (Add s other) = files s + files other"
    "dirs (Add s other) = dirs s + dirs other"
    "bytes (Add s other) = bytes s + bytes other"
    by (simp_all add: Add_def)
  have perm: "mset xs = mset ys \<longrightarrow> merge_all z xs = merge_all z ys"
    using merge_all_mset by blast
  show ?thesis
    using fields perm Add_commute [of a b] Add_assoc [of a b c] by blast
qed

theorem merge_order_independent_witness:
  "mset [\<lparr>files = 1, dirs = 0, bytes = 10\<rparr>, \<lparr>files = 0, dirs = 2, bytes = 0\<rparr>] =
     mset [\<lparr>files = 0, dirs = 2, bytes = 0\<rparr>, \<lparr>files = 1, dirs = 0, bytes = 10\<rparr>] \<and>
   merge_all zero_Stats [\<lparr>files = 1, dirs = 0, bytes = 10\<rparr>, \<lparr>files = 0, dirs = 2, bytes = 0\<rparr>] =
     merge_all zero_Stats [\<lparr>files = 0, dirs = 2, bytes = 0\<rparr>, \<lparr>files = 1, dirs = 0, bytes = 10\<rparr>] \<and>
   merge_all zero_Stats [\<lparr>files = 0, dirs = 2, bytes = 0\<rparr>, \<lparr>files = 1, dirs = 0, bytes = 10\<rparr>] =
     \<lparr>files = 1, dirs = 2, bytes = 10\<rparr>"
proof -
  have m: "mset [\<lparr>files = 1, dirs = 0, bytes = 10\<rparr>, \<lparr>files = 0, dirs = 2, bytes = 0\<rparr>] =
     mset [\<lparr>files = 0, dirs = 2, bytes = 0\<rparr>, \<lparr>files = 1, dirs = 0, bytes = (10::64 word)\<rparr>]"
    by simp
  have v: "merge_all zero_Stats [\<lparr>files = 0, dirs = 2, bytes = 0\<rparr>, \<lparr>files = 1, dirs = 0, bytes = 10\<rparr>] =
     \<lparr>files = 1, dirs = 2, bytes = 10\<rparr>"
    by (simp add: merge_all_def Add_def zero_Stats_def)
  from merge_order_independent
    [of _ _ _ _ _ "[\<lparr>files = 1, dirs = 0, bytes = 10\<rparr>, \<lparr>files = 0, dirs = 2, bytes = 0\<rparr>]"
       "[\<lparr>files = 0, dirs = 2, bytes = 0\<rparr>, \<lparr>files = 1, dirs = 0, bytes = 10\<rparr>]" zero_Stats] m
  have "merge_all zero_Stats [\<lparr>files = 1, dirs = 0, bytes = 10\<rparr>, \<lparr>files = 0, dirs = 2, bytes = 0\<rparr>] =
     merge_all zero_Stats [\<lparr>files = 0, dirs = 2, bytes = 0\<rparr>, \<lparr>files = 1, dirs = 0, bytes = 10\<rparr>]"
    by blast
  then show ?thesis using m v by blast
qed

text \<open>
  C4. For a fixed tree and a fixed file system, the stats that \<^verbatim>\<open>traverse\<close> returns are the
  same for every worker count of at least 1 and every schedule, and with such a worker
  count no schedule panics, every schedule is finite and some goroutine can move until
  \<^verbatim>\<open>traverse\<close> has returned. A worker count of 0 is outside this: \<^verbatim>\<open>traverse\<close> can then return
  all zeros, or the producer can panic on the closed stats channel.
\<close>

theorem worker_count_invariance:
  assumes "1 \<le> w1" and "1 \<le> w2"
  shows "exec io s1 (traverse w1 root) \<noteq> Panic m \<and>
     (exec io s1 (traverse w1 root) = Next c1 \<longrightarrow>
        length s1 \<le> steps_left (traverse w1 root) \<and>
        (main_pc c1 \<noteq> MReturned \<longrightarrow> enabled io c1 \<noteq> []) \<and>
        (main_pc c1 = MReturned \<and> exec io s2 (traverse w2 root) = Next c2 \<and>
           main_pc c2 = MReturned \<longrightarrow> stats c1 = stats c2))"
proof (intro conjI impI)
  show "exec io s1 (traverse w1 root) \<noteq> Panic m"
    using traverse_no_panic [OF assms(1)] .
next
  assume e: "exec io s1 (traverse w1 root) = Next c1"
  show "length s1 \<le> steps_left (traverse w1 root)"
    using traverse_bounded [OF e] .
  show "enabled io c1 \<noteq> []" if "main_pc c1 \<noteq> MReturned"
    using traverse_progress [OF e that] .
  assume "main_pc c1 = MReturned \<and> exec io s2 (traverse w2 root) = Next c2 \<and>
    main_pc c2 = MReturned"
  then show "stats c1 = stats c2"
    using traverse_returns [OF assms(1) e] traverse_returns [OF assms(2), of io s2 root c2]
    by simp
qed

theorem worker_count_invariance_witness:
  "(1::int) \<le> 2 \<and> (1::int) \<le> 1 \<and>
   (case exec (healthy_io small_tree) small_sched (traverse 2 small_tree) of
      Next c1 \<Rightarrow>
        main_pc c1 = MReturned \<and>
        (case exec (healthy_io small_tree) single_sched (traverse 1 small_tree) of
           Next c2 \<Rightarrow> main_pc c2 = MReturned \<and> stats c1 = stats c2
         | _ \<Rightarrow> False)
    | _ \<Rightarrow> False)"
proof -
  have w: "(1::int) \<le> 2" "(1::int) \<le> 1" by simp_all
  obtain c1 where c1: "exec (healthy_io small_tree) small_sched (traverse 2 small_tree) = Next c1"
    and r1: "main_pc c1 = MReturned"
    by (simp add: exec_small_tree)
  obtain c2 where c2: "exec (healthy_io small_tree) single_sched (traverse 1 small_tree) = Next c2"
    and r2: "main_pc c2 = MReturned"
    by (simp add: exec_single)
  have "stats c1 = stats c2"
    using worker_count_invariance
      [OF w, of "healthy_io small_tree" small_sched small_tree _ c1 single_sched c2] c1 r1 c2 r2
    by blast
  then show ?thesis using c1 r1 c2 r2 by simp
qed

theorem worker_count_invariance_counterexample:
  "(case exec (healthy_io small_tree) early_sched (traverse 0 small_tree) of
      Next c \<Rightarrow> main_pc c = MReturned \<and> stats c = \<lparr>files = 0, dirs = 0, bytes = 0\<rparr>
    | _ \<Rightarrow> False) \<and>
   (case exec (healthy_io small_tree) small_sched (traverse 2 small_tree) of
      Next c \<Rightarrow> main_pc c = MReturned \<and> stats c = \<lparr>files = 3, dirs = 2, bytes = 60\<rparr>
    | _ \<Rightarrow> False) \<and>
   exec (healthy_io small_tree) late_sched (traverse 0 small_tree) =
     Panic ''send on closed channel''"
  by (simp add: exec_small_tree exec_early exec_late)

text \<open>
  C5. A traversal error on an entry (\<^verbatim>\<open>Lstat\<close> fails, or a directory cannot be listed)
  ends the walk at that entry: the entries visited before it have their tasks sent and
  their directories counted, the failing entry gets no task and is not counted, the
  entries after it are not visited, and the error is logged once. The run goes on: with
  at least one worker no schedule panics, \<^verbatim>\<open>traverse\<close> returns, and the stats are those of
  the tasks sent before the error and of the directories counted before it.
\<close>

theorem traversal_error_ends_walk:
  assumes "visits (node_name root) root = before @ (path, fi, Some e) # after"
    and "list_all visit_ok before"
  shows "walk root =
       map SendTask (regular_paths before)
       @ [LogLine (''error walking '' @ node_name root @ '': '' @ error_text e @ ''\<newline>''),
          SendStat \<lparr>files = 0, dirs = of_nat (directories before), bytes = 0\<rparr>, CloseTasks] \<and>
     (1 \<le> workers \<longrightarrow>
        exec io sched (traverse workers root) \<noteq> Panic m \<and>
        (exec io sched (traverse workers root) = Next c \<longrightarrow>
           length sched \<le> steps_left (traverse workers root) \<and>
           (main_pc c \<noteq> MReturned \<longrightarrow> enabled io c \<noteq> []) \<and>
           (main_pc c = MReturned \<longrightarrow>
              stats c =
                Add (stat_sum (map (task_stat io) (regular_paths before)))
                  \<lparr>files = 0, dirs = of_nat (directories before), bytes = 0\<rparr> \<and>
              (''error walking '' @ node_name root @ '': '' @ error_text e @ ''\<newline>'')
                \<in> set (stderr c))))"
proof (intro conjI impI)
  note v = visited_split [OF assms]
  show w: "walk root =
       map SendTask (regular_paths before)
       @ [LogLine (''error walking '' @ node_name root @ '': '' @ error_text e @ ''\<newline>''),
          SendStat \<lparr>files = 0, dirs = of_nat (directories before), bytes = 0\<rparr>, CloseTasks]"
    by (simp add: walk_spec v)
  assume k: "1 \<le> workers"
  show "exec io sched (traverse workers root) \<noteq> Panic m"
    using traverse_no_panic [OF k] .
  assume x: "exec io sched (traverse workers root) = Next c"
  show "length sched \<le> steps_left (traverse workers root)"
    using traverse_bounded [OF x] .
  show "enabled io c \<noteq> []" if "main_pc c \<noteq> MReturned"
    using traverse_progress [OF x that] .
  assume r: "main_pc c = MReturned"
  show "stats c =
      Add (stat_sum (map (task_stat io) (regular_paths before)))
        \<lparr>files = 0, dirs = of_nat (directories before), bytes = 0\<rparr>"
    using traverse_returns [OF k x r] by (simp add: expected_def tasks_def dir_stat_def v)
  have "LogLine (''error walking '' @ node_name root @ '': '' @ error_text e @ ''\<newline>'')
      \<in> set (walk root)"
    unfolding w by simp
  from logged_exec [OF x this] returned_walk_rest [OF k x r]
  show "(''error walking '' @ node_name root @ '': '' @ error_text e @ ''\<newline>'')
      \<in> set (stderr c)"
    by simp
qed

theorem traversal_error_ends_walk_witness:
  "visits (node_name broken_tree) broken_tree =
     [(''r'', Some Directory, None), (''r/a'', Some Regular, None)]
     @ (''r/locked'', Some Directory, Some (OSError ''open r/locked: permission denied''))
     # [(''r/z'', Some Regular, None)] \<and>
   list_all visit_ok [(''r'', Some Directory, None), (''r/a'', Some Regular, None)] \<and>
   (1::int) \<le> 1 \<and>
   walk broken_tree =
     [SendTask ''r/a'', LogLine ''error walking r: open r/locked: permission denied\<newline>'',
      SendStat \<lparr>files = 0, dirs = 1, bytes = 0\<rparr>, CloseTasks] \<and>
   (case exec (healthy_io broken_tree) broken_sched (traverse 1 broken_tree) of
      Next c \<Rightarrow>
        main_pc c = MReturned \<and> stats c = \<lparr>files = 1, dirs = 1, bytes = 5\<rparr> \<and>
        ''error walking r: open r/locked: permission denied\<newline>'' \<in> set (stderr c)
    | _ \<Rightarrow> False)"
proof -
  have ok: "list_all visit_ok [(''r'', Some Directory, None), (''r/a'', Some Regular, None)]"
    by simp
  obtain c where c: "exec (healthy_io broken_tree) broken_sched (traverse 1 broken_tree) = Next c"
    and r: "main_pc c = MReturned"
    by (simp add: exec_broken_tree)
  have n: "node_name broken_tree = ''r''" by (simp add: broken_tree_def)
  have t: "task_stat (healthy_io broken_tree) ''r/a'' = \<lparr>files = 1, dirs = 0, bytes = 5\<rparr>"
    by (simp add: task_stat_def read_broken_tree)
  from traversal_error_ends_walk
    [OF visits_broken_tree ok, of 1 "healthy_io broken_tree" broken_sched _ c] c r
  have "walk broken_tree =
     [SendTask ''r/a'', LogLine ''error walking r: open r/locked: permission denied\<newline>'',
      SendStat \<lparr>files = 0, dirs = 1, bytes = 0\<rparr>, CloseTasks]"
    and "stats c = \<lparr>files = 1, dirs = 1, bytes = 5\<rparr>"
    and "''error walking r: open r/locked: permission denied\<newline>'' \<in> set (stderr c)"
    by (simp_all add: n t regular_paths_simps directories_simps stat_sum_Cons stat_sum_Nil
        Add_def zero_Stats_def)
  then show ?thesis using visits_broken_tree ok c r by simp
qed

theorem traversal_error_ends_walk_counterexample:
  "(''r/z'', Some Regular, None) \<in> set (visits (node_name broken_tree) broken_tree) \<and>
   readFile_body (healthy_io broken_tree) ''r/z'' =
     ([], Some \<lparr>files = 1, dirs = 0, bytes = 7\<rparr>) \<and>
   SendTask ''r/z'' \<notin> set (walk broken_tree) \<and>
   (case exec (healthy_io broken_tree) broken_sched (traverse 1 broken_tree) of
      Next c \<Rightarrow> main_pc c = MReturned \<and> stats c = \<lparr>files = 1, dirs = 1, bytes = 5\<rparr>
    | _ \<Rightarrow> False)"
proof -
  have "readFile_body (healthy_io broken_tree) ''r/z'' =
     ([], Some \<lparr>files = 1, dirs = 0, bytes = 7\<rparr>)"
    by (simp add: readFile_body_def healthy_io_def broken_tree_def Join_examples)
  then show ?thesis
    by (simp add: visits_broken_tree walk_broken_tree exec_broken_tree)
qed

text \<open>
  C6. With at least one reader worker, \<^verbatim>\<open>traverse\<close> shuts down in two phases. The stats
  channel is closed only when every reader worker has returned and the producer has sent
  its stat and finished, so that the channel is never closed with a writer pending and no
  step panics. \<^verbatim>\<open>traverse\<close> returns only when the stats channel is closed and empty and the
  aggregator has finished, and the stats returned are the sum of every stat sent: none is
  lost. Every schedule is finite, and some goroutine can move until \<^verbatim>\<open>traverse\<close> has
  returned. The order of the steps of \<^verbatim>\<open>traverse\<close> itself (the close at line 123 after the
  wait for the workers, the return after the wait for the aggregator) holds for every
  worker count. A worker count of 0 is outside the rest: the stats channel is then closed
  at once, while the producer has still to send its stat, and that stat is lost or its
  send panics.
\<close>

theorem two_phase_shutdown:
  assumes "exec io sched (traverse workers root) = Next c"
  shows "(stats_closed c \<longrightarrow> wg c = 0 \<and> list_all (\<lambda>w. w = WDone) (ws c)) \<and>
     (step io a c = Next c' \<and> \<not> stats_closed c \<and> stats_closed c' \<longrightarrow>
        a = Main \<and> main_pc c = MCloseStats \<and> wg c = 0 \<and> list_all (\<lambda>w. w = WDone) (ws c)) \<and>
     (main_pc c = MReturned \<longrightarrow> stats_closed c \<and> agg_done c \<and> statsCh c = []) \<and>
     (step io a c = Next c' \<and> main_pc c \<noteq> MReturned \<and> main_pc c' = MReturned \<longrightarrow>
        a = Main \<and> stats_closed c \<and> agg_done c \<and> statsCh c = []) \<and>
     length sched \<le> steps_left (traverse workers root) \<and>
     (main_pc c \<noteq> MReturned \<longrightarrow> enabled io c \<noteq> []) \<and>
     (1 \<le> workers \<longrightarrow>
        step io a c \<noteq> Panic m \<and>
        (stats_closed c \<longrightarrow> walk_rest c = [] \<and> \<not> stat_pending (walk_rest c)) \<and>
        (step io a c = Next c' \<and> \<not> stats_closed c \<and> stats_closed c' \<longrightarrow>
           walk_rest c = [] \<and> \<not> stat_pending (walk_rest c)) \<and>
        (main_pc c = MReturned \<longrightarrow> stats c = expected io root))"
proof -
  have i: "inv io root c" using inv_exec [OF assms] .
  then have p: "inv_prod root c" and s: "inv_sync c" unfolding inv_def by simp_all
  have alldone: "wg c = 0 \<Longrightarrow> list_all (\<lambda>w. w = WDone) (ws c)"
    using s active_zero [of "ws c"] unfolding inv_sync_def by (simp add: list_all_iff)
  have 1: "stats_closed c \<longrightarrow> wg c = 0 \<and> list_all (\<lambda>w. w = WDone) (ws c)"
    using s alldone unfolding inv_sync_def by auto
  have 2: "step io a c = Next c' \<and> \<not> stats_closed c \<and> stats_closed c' \<longrightarrow>
        a = Main \<and> main_pc c = MCloseStats \<and> wg c = 0 \<and> list_all (\<lambda>w. w = WDone) (ws c)"
  proof
    assume h: "step io a c = Next c' \<and> \<not> stats_closed c \<and> stats_closed c'"
    then have "a = Main \<and> main_pc c = MCloseStats" using closes_stats by blast
    moreover from this have "wg c = 0" using s unfolding inv_sync_def by auto
    ultimately show "a = Main \<and> main_pc c = MCloseStats \<and> wg c = 0 \<and>
        list_all (\<lambda>w. w = WDone) (ws c)"
      using alldone by simp
  qed
  have 3: "main_pc c = MReturned \<longrightarrow> stats_closed c \<and> agg_done c \<and> statsCh c = []"
    using s unfolding inv_sync_def by auto
  have 4: "step io a c = Next c' \<and> main_pc c \<noteq> MReturned \<and> main_pc c' = MReturned \<longrightarrow>
        a = Main \<and> stats_closed c \<and> agg_done c \<and> statsCh c = []"
  proof
    assume h: "step io a c = Next c' \<and> main_pc c \<noteq> MReturned \<and> main_pc c' = MReturned"
    then have "a = Main \<and> main_pc c = MWaitAgg \<and> statsWg c = 0" using returns_step by blast
    then show "a = Main \<and> stats_closed c \<and> agg_done c \<and> statsCh c = []"
      using s unfolding inv_sync_def by (auto split: if_splits)
  qed
  have 5: "length sched \<le> steps_left (traverse workers root)"
    using traverse_bounded [OF assms] .
  have 6: "main_pc c \<noteq> MReturned \<longrightarrow> enabled io c \<noteq> []"
    using traverse_progress [OF assms] by blast
  have 7: "1 \<le> workers \<longrightarrow>
        step io a c \<noteq> Panic m \<and>
        (stats_closed c \<longrightarrow> walk_rest c = [] \<and> \<not> stat_pending (walk_rest c)) \<and>
        (step io a c = Next c' \<and> \<not> stats_closed c \<and> stats_closed c' \<longrightarrow>
           walk_rest c = [] \<and> \<not> stat_pending (walk_rest c)) \<and>
        (main_pc c = MReturned \<longrightarrow> stats c = expected io root)"
  proof (intro impI conjI)
    assume k: "1 \<le> workers"
    have w: "ws c \<noteq> []"
      using exec_length_ws [OF assms] traverse_ws [OF k, of root] by auto
    have z: "walk_rest c = []" if "wg c = 0"
    proof -
      have "ch_closed c" using all_done_closed [OF s w that] by simp
      then show ?thesis using p unfolding inv_prod_def by simp
    qed
    show "step io a c \<noteq> Panic m" using no_panic_step [OF i w] .
    show c1: "walk_rest c = []" if "stats_closed c"
      using z 1 that by blast
    show "\<not> stat_pending (walk_rest c)" if "stats_closed c"
      using c1 [OF that] by simp
    show c2: "walk_rest c = []"
      if "step io a c = Next c' \<and> \<not> stats_closed c \<and> stats_closed c'"
      using z 2 that by blast
    show "\<not> stat_pending (walk_rest c)"
      if "step io a c = Next c' \<and> \<not> stats_closed c \<and> stats_closed c'"
      using c2 [OF that] by simp
    show "stats c = expected io root" if "main_pc c = MReturned"
      using traverse_returns [OF k assms that] .
  qed
  show ?thesis using 1 2 3 4 5 6 7 by blast
qed

theorem two_phase_shutdown_witness:
  "(case exec (healthy_io small_tree) (take 15 small_sched) (traverse 2 small_tree) of
      Next c \<Rightarrow>
        (case step (healthy_io small_tree) Main c of
           Next c' \<Rightarrow>
             \<not> stats_closed c \<and> stats_closed c' \<and> main_pc c = MCloseStats \<and> wg c = 0 \<and>
             list_all (\<lambda>w. w = WDone) (ws c) \<and> walk_rest c = []
         | _ \<Rightarrow> False)
    | _ \<Rightarrow> False) \<and>
   (1::int) \<le> 2 \<and>
   (case exec (healthy_io small_tree) small_sched (traverse 2 small_tree) of
      Next c \<Rightarrow>
        main_pc c = MReturned \<and> stats_closed c \<and> agg_done c \<and> statsCh c = [] \<and> wg c = 0 \<and>
        walk_rest c = [] \<and> stats c = \<lparr>files = 3, dirs = 2, bytes = 60\<rparr>
    | _ \<Rightarrow> False)"
proof -
  obtain c where c: "exec (healthy_io small_tree) (take 15 small_sched) (traverse 2 small_tree) = Next c"
    and nc: "\<not> stats_closed c" and pc: "main_pc c = MCloseStats"
    by (simp add: exec_small_closing)
  obtain c' where c': "step (healthy_io small_tree) Main c = Next c'" and cc: "stats_closed c'"
    using nc pc by (simp add: step_defs)
  have w: "(1::int) \<le> 2" by simp
  have a: "main_pc c = MCloseStats \<and> wg c = 0 \<and> list_all (\<lambda>w. w = WDone) (ws c) \<and>
      walk_rest c = []"
    using two_phase_shutdown [OF c, of Main c'] c' nc cc w by blast
  obtain d where d: "exec (healthy_io small_tree) small_sched (traverse 2 small_tree) = Next d"
    and r: "main_pc d = MReturned"
    by (simp add: exec_small_tree)
  have e: "expected (healthy_io small_tree) small_tree = \<lparr>files = 3, dirs = 2, bytes = 60\<rparr>"
    using expected_readable [of small_tree "healthy_io small_tree"] small_tree_ok
    by (simp add: small_tree_counts)
  have b: "stats_closed d \<and> agg_done d \<and> statsCh d = [] \<and> wg d = 0 \<and> walk_rest d = [] \<and>
      stats d = \<lparr>files = 3, dirs = 2, bytes = 60\<rparr>"
    using two_phase_shutdown [OF d, of Main d] r w e by simp
  show ?thesis using c c' nc cc a d r b by simp
qed

theorem two_phase_shutdown_counterexample:
  "SendStat \<lparr>files = 0, dirs = 2, bytes = 0\<rparr> \<in> set (walk small_tree) \<and>
   (case exec (healthy_io small_tree) (take 2 early_sched) (traverse 0 small_tree) of
      Next c \<Rightarrow>
        stats_closed c \<and> wg c = 0 \<and> stat_pending (walk_rest c) \<and>
        walk_rest c = walk small_tree
    | _ \<Rightarrow> False) \<and>
   (case exec (healthy_io small_tree) early_sched (traverse 0 small_tree) of
      Next c \<Rightarrow>
        main_pc c = MReturned \<and> stats c = \<lparr>files = 0, dirs = 0, bytes = 0\<rparr> \<and>
        stat_pending (walk_rest c)
    | _ \<Rightarrow> False) \<and>
   exec (healthy_io small_tree) late_sched (traverse 0 small_tree) =
     Panic ''send on closed channel''"
  by (simp add: exec_early_closed exec_early exec_late) (simp add: walk_small_tree)

text \<open>
  C7. With at least one reader worker, the producer sends exactly one stat and only then
  closes the task channel. The producer's program contains exactly one send of a stat;
  that stat has no files and no bytes and carries the number of directories the walk has
  counted (all directories of the tree when the walk meets no error); it comes after
  every task and after the line that logs a walk error, and the close of the task channel
  is the act after it and the last one. In every configuration that a schedule reaches
  the producer has run a prefix of this program, it has sent the stat exactly once if the
  send is behind it and not at all otherwise, the task channel is closed exactly when the
  program is finished, and the step that closes it is the producer's last act. With at
  least one reader worker no step panics, so that the task channel is never closed by the
  deferred call of a panicking producer, and when \<^verbatim>\<open>traverse\<close> returns the program is
  finished, the stat sent once and the task channel closed. A worker count of 0 is
  outside this: \<^verbatim>\<open>traverse\<close> can then return with no stat sent, or the send can panic, and
  the deferred call then closes the task channel with the stat never sent.
\<close>

theorem producer_summary_then_close:
  "filter is_stat (walk root) =
     [SendStat \<lparr>files = 0, dirs = of_nat (directories (visited root)), bytes = 0\<rparr>] \<and>
   (walkable root \<longrightarrow> directories (visited root) = count_dirs root) \<and>
   (\<exists>pre. walk root =
            pre @ [SendStat \<lparr>files = 0, dirs = of_nat (directories (visited root)), bytes = 0\<rparr>,
                   CloseTasks] \<and>
          filter is_stat pre = [] \<and> CloseTasks \<notin> set pre) \<and>
   (1 \<le> workers \<longrightarrow>
      exec io sched (traverse workers root) \<noteq> Panic m \<and>
      dies_in io sched (traverse workers root) = None) \<and>
   (exec io sched (traverse workers root) = Next c \<longrightarrow>
      (\<exists>done. walk root = done @ walk_rest c \<and>
         filter is_stat done =
           (if stat_pending (walk_rest c) then []
            else [SendStat \<lparr>files = 0, dirs = of_nat (directories (visited root)),
                    bytes = 0\<rparr>])) \<and>
      (ch_closed c \<longleftrightarrow> walk_rest c = []) \<and>
      (step io a c = Next c' \<and> \<not> ch_closed c \<and> ch_closed c' \<longrightarrow>
         a = Producer \<and> walk_rest c = [CloseTasks] \<and> walk_rest c' = []) \<and>
      length sched \<le> steps_left (traverse workers root) \<and>
      (main_pc c \<noteq> MReturned \<longrightarrow> enabled io c \<noteq> []) \<and>
      (1 \<le> workers \<longrightarrow>
         step io a c \<noteq> Panic m \<and>
         (main_pc c = MReturned \<longrightarrow>
            walk_rest c = [] \<and> ch_closed c \<and> \<not> stat_pending (walk_rest c))))"
proof (intro conjI impI)
  show "filter is_stat (walk root) =
     [SendStat \<lparr>files = 0, dirs = of_nat (directories (visited root)), bytes = 0\<rparr>]"
    using walk_one_stat [of root] by (simp add: dir_stat_def)
  show "directories (visited root) = count_dirs root" if "walkable root"
    using walkable_visited(1) [OF that] directories_visits(1) [OF that] by simp
  show "\<exists>pre. walk root =
            pre @ [SendStat \<lparr>files = 0, dirs = of_nat (directories (visited root)), bytes = 0\<rparr>,
                   CloseTasks] \<and>
          filter is_stat pre = [] \<and> CloseTasks \<notin> set pre"
    using walk_ends [of root] by (simp add: dir_stat_def)
next
  assume k: "1 \<le> workers"
  show "exec io sched (traverse workers root) \<noteq> Panic m"
    using traverse_no_panic [OF k] .
  show "dies_in io sched (traverse workers root) = None"
    using traverse_no_panic [OF k] by (rule dies_in_None)
next
  assume e: "exec io sched (traverse workers root) = Next c"
  have i: "inv io root c" using inv_exec [OF e] .
  then have p: "inv_prod root c" unfolding inv_def by simp
  obtain pre where pre: "walk root = pre @ walk_rest c" using script_exec [OF e] by blast
  show "\<exists>done. walk root = done @ walk_rest c \<and>
         filter is_stat done =
           (if stat_pending (walk_rest c) then []
            else [SendStat \<lparr>files = 0, dirs = of_nat (directories (visited root)),
                    bytes = 0\<rparr>])"
    using pre emitted_stat [OF pre] unfolding dir_stat_def by blast
  show q: "ch_closed c \<longleftrightarrow> walk_rest c = []" using p unfolding inv_prod_def by simp
  show "length sched \<le> steps_left (traverse workers root)"
    using traverse_bounded [OF e] .
  show "enabled io c \<noteq> []" if "main_pc c \<noteq> MReturned"
    using traverse_progress [OF e that] .
  {
    assume k: "1 \<le> workers"
    have w: "ws c \<noteq> []"
      using exec_length_ws [OF e] traverse_ws [OF k, of root] by auto
    show "step io a c \<noteq> Panic m" using no_panic_step [OF i w] .
    assume r: "main_pc c = MReturned"
    show z: "walk_rest c = []" using returned_walk_rest [OF k e r] .
    show "ch_closed c" using q z by simp
    show "\<not> stat_pending (walk_rest c)" using z by simp
  }
  assume h: "step io a c = Next c' \<and> \<not> ch_closed c \<and> ch_closed c'"
  then obtain rest where a: "a = Producer" and r: "walk_rest c = CloseTasks # rest"
    using closes_tasks by blast
  show "a = Producer" using a .
  have "wf_rest (dir_stat root) (CloseTasks # rest)" using p r unfolding inv_prod_def by simp
  then show "walk_rest c = [CloseTasks]" using r by simp
  have "inv_prod root c'" using inv_prod_step [OF p] h by blast
  then show "walk_rest c' = []" using h unfolding inv_prod_def by simp
qed

theorem producer_summary_then_close_witness:
  "walkable small_tree \<and> directories (visited small_tree) = 2 \<and>
   filter is_stat (walk small_tree) = [SendStat \<lparr>files = 0, dirs = 2, bytes = 0\<rparr>] \<and>
   (1::int) \<le> 1 \<and>
   dies_in (healthy_io small_tree) single_sched (traverse 1 small_tree) = None \<and>
   (case exec (healthy_io small_tree) (take 4 single_sched) (traverse 1 small_tree) of
      Next c \<Rightarrow>
        (case step (healthy_io small_tree) Producer c of
           Next c' \<Rightarrow>
             \<not> ch_closed c \<and> ch_closed c' \<and> walk_rest c = [CloseTasks] \<and> walk_rest c' = [] \<and>
             statsCh c = [\<lparr>files = 0, dirs = 2, bytes = 0\<rparr>]
         | _ \<Rightarrow> False)
    | _ \<Rightarrow> False) \<and>
   (case exec (healthy_io small_tree) single_sched (traverse 1 small_tree) of
      Next c \<Rightarrow>
        main_pc c = MReturned \<and> walk_rest c = [] \<and> ch_closed c \<and>
        \<not> stat_pending (walk_rest c)
    | _ \<Rightarrow> False)"
proof -
  have w: "walkable small_tree" using small_tree_ok by simp
  have k: "(1::int) \<le> 1" by simp
  obtain c where c: "exec (healthy_io small_tree) (take 4 single_sched) (traverse 1 small_tree) = Next c"
    and nc: "\<not> ch_closed c" and r: "walk_rest c = [CloseTasks]"
    and st: "statsCh c = [\<lparr>files = 0, dirs = 2, bytes = 0\<rparr>]"
    by (simp add: exec_single_closing)
  obtain c' where c': "step (healthy_io small_tree) Producer c = Next c'" and cc: "ch_closed c'"
    using nc r by (simp add: step_defs)
  note t = producer_summary_then_close
    [where root = small_tree and io = "healthy_io small_tree" and sched = "take 4 single_sched"
       and workers = 1 and c = c and a = Producer and c' = c']
  have d: "directories (visited small_tree) = 2"
    using t w by (simp add: small_tree_counts)
  have f: "filter is_stat (walk small_tree) = [SendStat \<lparr>files = 0, dirs = 2, bytes = 0\<rparr>]"
    using t d by simp
  have x: "walk_rest c' = []" using t c c' nc cc by blast
  obtain e where e: "exec (healthy_io small_tree) single_sched (traverse 1 small_tree) = Next e"
    and re: "main_pc e = MReturned"
    by (simp add: exec_single)
  note u = producer_summary_then_close
    [where root = small_tree and io = "healthy_io small_tree" and sched = single_sched
       and workers = 1 and c = e and a = Producer and c' = e]
  have n: "dies_in (healthy_io small_tree) single_sched (traverse 1 small_tree) = None"
    using u k by blast
  have y: "walk_rest e = [] \<and> ch_closed e \<and> \<not> stat_pending (walk_rest e)"
    using u k e re by blast
  show ?thesis using w d f k n c c' nc cc r st x e re y by simp
qed

theorem producer_summary_then_close_counterexample:
  "filter is_stat (walk small_tree) = [SendStat \<lparr>files = 0, dirs = 2, bytes = 0\<rparr>] \<and>
   (case exec (healthy_io small_tree) early_sched (traverse 0 small_tree) of
      Next c \<Rightarrow>
        main_pc c = MReturned \<and> walk_rest c = walk small_tree \<and> \<not> ch_closed c \<and>
        stat_pending (walk_rest c) \<and> statsCh c = [] \<and>
        stats c = \<lparr>files = 0, dirs = 0, bytes = 0\<rparr>
    | _ \<Rightarrow> False) \<and>
   exec (healthy_io small_tree) late_sched (traverse 0 small_tree) =
     Panic ''send on closed channel'' \<and>
   (case dies_in (healthy_io small_tree) late_sched (traverse 0 small_tree) of
      Some c \<Rightarrow>
        ch_closed c \<and> stat_pending (walk_rest c) \<and>
        walk_rest c = [SendStat \<lparr>files = 0, dirs = 2, bytes = 0\<rparr>, CloseTasks]
    | None \<Rightarrow> False)"
  by (simp add: exec_early exec_late dies_in_late) (simp add: walk_small_tree)

text \<open>
  C8. When \<^verbatim>\<open>main\<close> ends with status 0, the output file holds the header alone if the
  file did not exist, and exactly what it held before if it existed: the header is
  written once, on creation, and never again. No data line is appended in either case:
  the file is opened with \<^verbatim>\<open>O_APPEND\<close> alone, that is for reading only, and the write of
  line 180 fails. Opened with \<^verbatim>\<open>O_WRONLY|O_APPEND\<close>, the same write appends the line.
\<close>

theorem data_line_not_written:
  "(main workers outputFile args tree io tm fs sched = Exit 0 fs' lines \<longrightarrow>
      content fs' = Some (case content fs of None \<Rightarrow> header | Some old \<Rightarrow> old)) \<and>
   (content fs = Some old \<and> may_read fs \<longrightarrow>
      (case OpenFile fs O_APPEND of
         (Inr f, fs1) \<Rightarrow> Write (Some f) line fs1 = (Some EBADF, fs)
       | _ \<Rightarrow> False)) \<and>
   (content fs = Some old \<and> may_write fs \<longrightarrow>
      (case OpenFile fs (O_WRONLY OR O_APPEND) of
         (Inr f, fs1) \<Rightarrow> Write (Some f) line fs1 = (None, fs\<lparr>content := Some (old @ line)\<rparr>)
       | _ \<Rightarrow> False))"
proof (intro conjI impI)
  assume "main workers outputFile args tree io tm fs sched = Exit 0 fs' lines"
  then show "content fs' = Some (case content fs of None \<Rightarrow> header | Some old \<Rightarrow> old)"
    by (rule main_Exit_0)
next
  assume "content fs = Some old \<and> may_read fs"
  then show "case OpenFile fs O_APPEND of
         (Inr f, fs1) \<Rightarrow> Write (Some f) line fs1 = (Some EBADF, fs)
       | _ \<Rightarrow> False"
    by (simp add: OpenFile_append Write_def)
next
  have "(O_WRONLY OR O_APPEND) AND O_ACCMODE = O_WRONLY" "(O_WRONLY OR O_APPEND) AND O_TRUNC = 0"
    "(O_WRONLY OR O_APPEND) AND O_APPEND \<noteq> 0"
    by (simp_all add: O_APPEND_def O_ACCMODE_def O_TRUNC_def O_WRONLY_def)
  moreover assume "content fs = Some old \<and> may_write fs"
  ultimately show "case OpenFile fs (O_WRONLY OR O_APPEND) of
         (Inr f, fs1) \<Rightarrow> Write (Some f) line fs1 = (None, fs\<lparr>content := Some (old @ line)\<rparr>)
       | _ \<Rightarrow> False"
    by (simp add: OpenFile_def Write_def Let_def flag_simps)
qed

theorem data_line_not_written_witness:
  "(case main 2 ''benchmarks.csv'' [''root''] (\<lambda>_. small_tree) (healthy_io small_tree)
           some_timing fresh_out small_sched of
      Exit status fs' lines \<Rightarrow> status = 0 \<and> content fs' = Some header
    | _ \<Rightarrow> False) \<and>
   (case main 2 ''benchmarks.csv'' [''root''] (\<lambda>_. small_tree) (healthy_io small_tree)
           some_timing used_out small_sched of
      Exit status fs' lines \<Rightarrow> status = 0 \<and> content fs' = content used_out
    | _ \<Rightarrow> False)"
proof -
  obtain f1 l1 where 1: "main 2 ''benchmarks.csv'' [''root''] (\<lambda>_. small_tree)
      (healthy_io small_tree) some_timing fresh_out small_sched = Exit 0 f1 l1"
    using main_small_fresh by blast
  obtain f2 l2 where 2: "main 2 ''benchmarks.csv'' [''root''] (\<lambda>_. small_tree)
      (healthy_io small_tree) some_timing used_out small_sched = Exit 0 f2 l2"
    using main_small_used by blast
  have "content f1 = Some header"
    using data_line_not_written [of 2 "''benchmarks.csv''" "[''root'']" "\<lambda>_. small_tree"
      "healthy_io small_tree" some_timing fresh_out small_sched f1 l1] 1
    by (simp add: fresh_out_def)
  moreover have "content f2 = content used_out"
    using data_line_not_written [of 2 "''benchmarks.csv''" "[''root'']" "\<lambda>_. small_tree"
      "healthy_io small_tree" some_timing used_out small_sched f2 l2] 2
    by (simp add: used_out_def)
  ultimately show ?thesis using 1 2 by simp
qed

text \<open>
  C9. A stat that a reader worker sends has one file and no directories; the one stat of
  the producer has no files and no bytes. So in the stats that \<^verbatim>\<open>traverse\<close> returns, for
  every worker count, the directories are those of the producer's stat (or none, if it
  was not sent), and the files and bytes are those of the tasks read without error among
  the tasks taken from the channel. With at least one worker these are all tasks of the
  walk and the producer's stat is part of the sum.
\<close>

theorem counters_by_origin:
  "(readFile_body io filename = (lines, Some s) \<longrightarrow>
      files s = 1 \<and> dirs s = 0 \<and> bytes s = copy_n (io filename)) \<and>
   (SendStat d \<in> set (walk root) \<longrightarrow>
      files d = 0 \<and> bytes d = 0 \<and> dirs d = of_nat (directories (visited root))) \<and>
   (exec io sched (traverse workers root) = Next c \<and> main_pc c = MReturned \<longrightarrow>
      (\<exists>n \<le> length (tasks root).
         files (stats c) = of_nat (length (filter (read_ok io) (take n (tasks root)))) \<and>
         bytes (stats c) =
           sum_list (map (\<lambda>f. copy_n (io f)) (filter (read_ok io) (take n (tasks root)))) \<and>
         dirs (stats c) =
           (if stat_pending (walk_rest c) then 0 else of_nat (directories (visited root)))) \<and>
      (1 \<le> workers \<longrightarrow>
         files (stats c) = of_nat (length (filter (read_ok io) (tasks root))) \<and>
         bytes (stats c) = sum_list (map (\<lambda>f. copy_n (io f)) (filter (read_ok io) (tasks root))) \<and>
         dirs (stats c) = of_nat (directories (visited root))))"
proof (intro conjI impI)
  assume r: "readFile_body io filename = (lines, Some s)"
  then have "snd (readFile_body io filename) = Some s" by simp
  then have "s = \<lparr>files = 1, dirs = 0, bytes = copy_n (io filename)\<rparr>"
    unfolding readFile_body_stat by (simp split: if_splits)
  then show "files s = 1" "dirs s = 0" "bytes s = copy_n (io filename)" by simp_all
next
  assume "SendStat d \<in> set (walk root)"
  then have "d = dir_stat root" by (rule walk_stat)
  then show "files d = 0" "bytes d = 0" "dirs d = of_nat (directories (visited root))"
    by (simp_all add: dir_stat_def)
next
  assume h: "exec io sched (traverse workers root) = Next c \<and> main_pc c = MReturned"
  then obtain n where n: "n \<le> length (tasks root)"
    and s: "stats c =
       Add (stat_sum (map (task_stat io) (take n (tasks root))))
         (if stat_pending (walk_rest c) then zero_Stats else dir_stat root)"
    using returned_stats_any by blast
  have "files (stats c) = of_nat (length (filter (read_ok io) (take n (tasks root)))) \<and>
         bytes (stats c) =
           sum_list (map (\<lambda>f. copy_n (io f)) (filter (read_ok io) (take n (tasks root)))) \<and>
         dirs (stats c) =
           (if stat_pending (walk_rest c) then 0 else of_nat (directories (visited root)))"
    unfolding s stat_sum_tasks by (simp add: Add_def zero_Stats_def dir_stat_def)
  then show "\<exists>n \<le> length (tasks root).
         files (stats c) = of_nat (length (filter (read_ok io) (take n (tasks root)))) \<and>
         bytes (stats c) =
           sum_list (map (\<lambda>f. copy_n (io f)) (filter (read_ok io) (take n (tasks root)))) \<and>
         dirs (stats c) =
           (if stat_pending (walk_rest c) then 0 else of_nat (directories (visited root)))"
    using n by blast
  assume k: "1 \<le> workers"
  have e: "stats c = expected io root" using traverse_returns [OF k] h by blast
  show "files (stats c) = of_nat (length (filter (read_ok io) (tasks root)))"
    "bytes (stats c) = sum_list (map (\<lambda>f. copy_n (io f)) (filter (read_ok io) (tasks root)))"
    "dirs (stats c) = of_nat (directories (visited root))"
    unfolding e expected_def stat_sum_tasks by (simp_all add: Add_def dir_stat_def)
qed

theorem counters_by_origin_witness:
  "readFile_body faulty_io ''root/a'' = ([], Some \<lparr>files = 1, dirs = 0, bytes = 10\<rparr>) \<and>
   SendStat \<lparr>files = 0, dirs = 2, bytes = 0\<rparr> \<in> set (walk small_tree) \<and>
   directories (visited small_tree) = 2 \<and>
   (1::int) \<le> 1 \<and>
   (case exec faulty_io faulty_sched (traverse 1 small_tree) of
      Next c \<Rightarrow>
        main_pc c = MReturned \<and> files (stats c) = 2 \<and> bytes (stats c) = 40 \<and>
        dirs (stats c) = 2
    | _ \<Rightarrow> False)"
proof -
  obtain c where c: "exec faulty_io faulty_sched (traverse 1 small_tree) = Next c"
    and r: "main_pc c = MReturned"
    by (simp add: exec_faulty)
  have k: "(1::int) \<le> 1" by simp
  have m: "SendStat \<lparr>files = 0, dirs = 2, bytes = 0\<rparr> \<in> set (walk small_tree)"
    by (simp add: walk_small_tree)
  note t = counters_by_origin
    [of faulty_io "''root/a''" "[]" "\<lparr>files = 1, dirs = 0, bytes = 10\<rparr>"
       "\<lparr>files = 0, dirs = 2, bytes = 0\<rparr>" small_tree faulty_sched 1 c]
  have d: "(2::64 word) = of_nat (directories (visited small_tree))"
    using t m by simp
  have d2: "directories (visited small_tree) = 2"
    by (simp add: visited_def small_tree_def Join_examples directories_def)
  have "files (stats c) = 2 \<and> bytes (stats c) = 40 \<and> dirs (stats c) = 2"
    using t c r k d2 by (simp add: tasks_small_tree read_ok_faulty)
  then show ?thesis using c r m d2 by (simp add: read_faulty)
qed

text \<open>
  C10. When the walk fails at the root (\<^verbatim>\<open>Lstat\<close> of the root fails, or the root directory
  cannot be listed) and there is at least one reader worker: no schedule panics,
  \<^verbatim>\<open>traverse\<close> returns, the stats returned are all zero and the error line of the walk is
  on the error stream. \<^verbatim>\<open>main\<close>, once it has got past the output file, does not crash and
  ends with status 0 when \<^verbatim>\<open>traverse\<close> has returned.
\<close>

theorem root_walk_failure:
  assumes "1 \<le> workers" and "root = StatErr name msg \<or> root = DirErr name msg"
  shows "exec io sched (traverse workers root) \<noteq> Panic m \<and>
     (exec io sched (traverse workers root) = Next c \<longrightarrow>
        length sched \<le> steps_left (traverse workers root) \<and>
        (main_pc c \<noteq> MReturned \<longrightarrow> enabled io c \<noteq> []) \<and>
        (main_pc c = MReturned \<longrightarrow>
           stats c = \<lparr>files = 0, dirs = 0, bytes = 0\<rparr> \<and>
           (''error walking '' @ name @ '': '' @ msg @ ''\<newline>'') \<in> set (stderr c) \<and>
           (length args = 1 \<and> tree (hd args) = root \<and>
            open_output outputFile fs = Inr (f, fs1, l1) \<longrightarrow>
              (\<exists>fs' lines.
                 main workers outputFile args tree io tm fs sched = Exit 0 fs' lines \<and>
                 (''error walking '' @ name @ '': '' @ msg @ ''\<newline>'') \<in> set lines)))) \<and>
     main workers outputFile args tree io tm fs sched \<noteq> Crashed m"
proof (intro conjI impI)
  show "exec io sched (traverse workers root) \<noteq> Panic m"
    using traverse_no_panic [OF assms(1)] .
  show "main workers outputFile args tree io tm fs sched \<noteq> Crashed m"
    using main_not_Crashed [OF assms(1)] .
next
  assume e: "exec io sched (traverse workers root) = Next c"
  show "length sched \<le> steps_left (traverse workers root)"
    using traverse_bounded [OF e] .
  show "enabled io c \<noteq> []" if "main_pc c \<noteq> MReturned"
    using traverse_progress [OF e that] .
  assume r: "main_pc c = MReturned"
  show "stats c = \<lparr>files = 0, dirs = 0, bytes = 0\<rparr>"
    using traverse_returns [OF assms(1) e r] root_fails_expected [OF assms(2)] by simp
  have "LogLine (''error walking '' @ name @ '': '' @ msg @ ''\<newline>'') \<in> set (walk root)"
    unfolding root_fails_walk [OF assms(2)] by simp
  from logged_exec [OF e this] returned_walk_rest [OF assms(1) e r]
  show l: "(''error walking '' @ name @ '': '' @ msg @ ''\<newline>'') \<in> set (stderr c)"
    by simp
  assume "length args = 1 \<and> tree (hd args) = root \<and>
    open_output outputFile fs = Inr (f, fs1, l1)"
  then obtain fs' hello l2 where
    "main workers outputFile args tree io tm fs sched = Exit 0 fs' (hello # l1 @ stderr c @ l2)"
    using main_Exit_returned [of args outputFile fs f fs1 l1 io sched workers tree c tm] e r
    by auto
  then show "\<exists>fs' lines.
      main workers outputFile args tree io tm fs sched = Exit 0 fs' lines \<and>
      (''error walking '' @ name @ '': '' @ msg @ ''\<newline>'') \<in> set lines"
    using l by auto
qed

theorem root_walk_failure_witness:
  "(1::int) \<le> 1 \<and>
   (case exec (healthy_io missing_root) missing_sched (traverse 1 missing_root) of
      Next c \<Rightarrow>
        main_pc c = MReturned \<and> stats c = \<lparr>files = 0, dirs = 0, bytes = 0\<rparr> \<and>
        ''error walking nowhere: lstat nowhere: no such file or directory\<newline>'' \<in> set (stderr c)
    | _ \<Rightarrow> False) \<and>
   (case main 1 ''benchmarks.csv'' [''nowhere''] (\<lambda>_. missing_root) (healthy_io missing_root)
           some_timing fresh_out missing_sched of
      Exit status fs' lines \<Rightarrow>
        status = 0 \<and>
        ''error walking nowhere: lstat nowhere: no such file or directory\<newline>'' \<in> set lines
    | _ \<Rightarrow> False)"
proof -
  have k: "(1::int) \<le> 1" by simp
  have m: "missing_root = StatErr ''nowhere'' ''lstat nowhere: no such file or directory'' \<or>
    missing_root = DirErr ''nowhere'' ''lstat nowhere: no such file or directory''"
    by (simp add: missing_root_def)
  obtain c where c: "exec (healthy_io missing_root) missing_sched (traverse 1 missing_root) = Next c"
    and r: "main_pc c = MReturned"
    by (simp add: exec_missing)
  note t = root_walk_failure [OF k m, where io = "healthy_io missing_root"
    and sched = missing_sched and c = c and args = "[''nowhere'']" and tree = "\<lambda>_. missing_root"
    and outputFile = "''benchmarks.csv''" and fs = fresh_out and tm = some_timing
    and f = "Some \<lparr>f_access = O_RDONLY, f_append = True\<rparr>"
    and ?fs1.0 = "fresh_out\<lparr>content := Some header\<rparr>"
    and ?l1.0 = "[''creating output file benchmarks.csv\<newline>'']" and m = "[]"]
  have 1: "stats c = \<lparr>files = 0, dirs = 0, bytes = 0\<rparr> \<and>
    ''error walking nowhere: lstat nowhere: no such file or directory\<newline>'' \<in> set (stderr c)"
    using t c r by simp
  have "\<exists>fs' lines.
     main 1 ''benchmarks.csv'' [''nowhere''] (\<lambda>_. missing_root) (healthy_io missing_root)
       some_timing fresh_out missing_sched = Exit 0 fs' lines \<and>
     ''error walking nowhere: lstat nowhere: no such file or directory\<newline>'' \<in> set lines"
    using t c r open_output_fresh by simp
  then obtain fs' lines where
    "main 1 ''benchmarks.csv'' [''nowhere''] (\<lambda>_. missing_root) (healthy_io missing_root)
       some_timing fresh_out missing_sched = Exit 0 fs' lines"
    "''error walking nowhere: lstat nowhere: no such file or directory\<newline>'' \<in> set lines"
    by blast
  then show ?thesis using 1 c r by simp
qed

theorem root_walk_failure_counterexample:
  "exec (healthy_io missing_root) missing_late_sched (traverse 0 missing_root) =
     Panic ''send on closed channel'' \<and>
   main 0 ''benchmarks.csv'' [''nowhere''] (\<lambda>_. missing_root) (healthy_io missing_root)
     some_timing fresh_out missing_late_sched = Crashed ''send on closed channel''"
  by (simp add: exec_missing_late main_def open_output_fresh Let_def)

end
